theory Spec2Isabelle
  imports Complex_Main "HOL-Library.Multiset" "HOL-Library.Log_Nat"
begin

section \<open>Data model\<close>

text \<open>
  The event stream of \<^verbatim>\<open>dataset.py\<close>: an event is a Python integer code, a composition
  is a sequence of such codes (the elements of the sequence are read as integers). Lengths,
  indices, the target length \<^verbatim>\<open>seq_len\<close> and the batch size are natural numbers. Errors
  raised by the code are values of \<open>error\<close>.
\<close>

datatype error =
  ValueError | IndexError | AssertionError | ZeroDivisionError | RuntimeError
  | TypeError | OverflowError

text \<open>
  The constants of \<^verbatim>\<open>constants.py\<close> that \<^verbatim>\<open>dataset.py\<close> reads
  (\<^verbatim>\<open>from constants import *\<close>). Their values are a parameter of every definition below.
\<close>

record constants =
  NUM_NOTES :: int
  TIME_QUANTIZATION :: int
  NOTE_ON_OFFSET :: int
  NOTE_OFF_OFFSET :: int
  TIME_OFFSET :: int
  CATEGORY_LEVEL :: int

text \<open>
  The layout of the three code ranges (note on, note off, time shift): contiguous and
  disjoint, each non-empty.
\<close>

definition valid_constants :: "constants \<Rightarrow> bool" where
  "valid_constants c =
     (0 \<le> NOTE_ON_OFFSET c \<and> 0 < NUM_NOTES c \<and> 0 < TIME_QUANTIZATION c \<and>
      NOTE_OFF_OFFSET c = NOTE_ON_OFFSET c + NUM_NOTES c \<and>
      TIME_OFFSET c = NOTE_OFF_OFFSET c + NUM_NOTES c)"

text \<open>The two tests \<^verbatim>\<open>random_subseq\<close> makes on an event to classify it.\<close>

definition is_note_off :: "constants \<Rightarrow> int \<Rightarrow> bool" where
  "is_note_off c evt = (evt < NOTE_OFF_OFFSET c + NUM_NOTES c \<and> evt \<ge> NOTE_OFF_OFFSET c)"

definition is_note_on :: "constants \<Rightarrow> int \<Rightarrow> bool" where
  "is_note_on c evt = (evt < NOTE_OFF_OFFSET c + NUM_NOTES c \<and> \<not> evt \<ge> NOTE_OFF_OFFSET c)"

text \<open>The event yielded for a padding slot: the longest time shift.\<close>

definition max_silence :: "constants \<Rightarrow> int" where
  "max_silence c = TIME_OFFSET c + TIME_QUANTIZATION c - 1"

section \<open>The window generator of \<^verbatim>\<open>random_subseq\<close>\<close>

text \<open>
  The state of the generator's loop is \<open>(note_ons, i, current)\<close>. \<open>gen_step\<close> is one
  iteration of the body of \<^verbatim>\<open>while i < seq_len\<close>: it returns what the iteration yields
  (\<open>None\<close> for the iteration that ends in \<^verbatim>\<open>continue\<close>) and the state after it.
\<close>

type_synonym gen_state = "int set \<times> nat \<times> nat"

fun gen_step :: "constants \<Rightarrow> int list \<Rightarrow> gen_state \<Rightarrow> int option \<times> gen_state" where
  "gen_step c sequence (note_ons, i, current) =
     (if current \<ge> length sequence then
        (Some (max_silence c), (note_ons, i + 1, current + 1))
      else
        let evt = sequence ! current in
        if evt < NOTE_OFF_OFFSET c + NUM_NOTES c then
          if evt \<ge> NOTE_OFF_OFFSET c then
            let note = evt - NOTE_OFF_OFFSET c in
            if note \<notin> note_ons then
              (None, (note_ons, i, current + 1))
            else
              (Some evt, (note_ons - {note}, i + 1, current + 1))
          else
            (Some evt, (insert (evt - NOTE_ON_OFFSET c) note_ons, i + 1, current + 1))
        else
          (Some evt, (note_ons, i + 1, current + 1)))"

text \<open>
  The loop, as the list of its iterations: the state at the head of the iteration, what
  the iteration yields, and the state after it.
\<close>

function generator_trace ::
  "constants \<Rightarrow> int list \<Rightarrow> nat \<Rightarrow> gen_state \<Rightarrow> (gen_state \<times> int option \<times> gen_state) list" where
  "generator_trace c sequence seq_len st =
     (if fst (snd st) < seq_len then
        (st, gen_step c sequence st) #
          generator_trace c sequence seq_len (snd (gen_step c sequence st))
      else [])"
  by pat_completeness auto
termination
  by (relation "measure (\<lambda>(c, sequence, seq_len, (note_ons, i, current)).
        (seq_len - i) + (length sequence - current))")
     (auto simp: Let_def)

declare generator_trace.simps [simp del]

text \<open>The events the generator yields, in order, started at \<open>index\<close>.\<close>

definition generator :: "constants \<Rightarrow> int list \<Rightarrow> nat \<Rightarrow> nat \<Rightarrow> int list" where
  "generator c sequence seq_len index =
     List.map_filter (\<lambda>(st, y, st'). y) (generator_trace c sequence seq_len ({}, 0, index))"

text \<open>
  The repair the generator is specified to perform, written as a recursion over the source
  events from the start index on: an orphan note off is dropped, every other event is kept,
  and the sounding set follows the kept events. It is compared with \<open>generator\<close> below.
\<close>

fun repair :: "constants \<Rightarrow> int set \<Rightarrow> int list \<Rightarrow> int list" where
  "repair c sounding [] = []"
| "repair c sounding (evt # rest) =
     (if is_note_off c evt then
        (if evt - NOTE_OFF_OFFSET c \<in> sounding
         then evt # repair c (sounding - {evt - NOTE_OFF_OFFSET c}) rest
         else repair c sounding rest)
      else if is_note_on c evt then
        evt # repair c (insert (evt - NOTE_ON_OFFSET c) sounding) rest
      else evt # repair c sounding rest)"

text \<open>
  A decoder's reading of a window: walking it with the set of open notes, every note off
  must close a note that is open.
\<close>

fun decodes :: "constants \<Rightarrow> int set \<Rightarrow> int list \<Rightarrow> bool" where
  "decodes c opened [] = True"
| "decodes c opened (evt # rest) =
     (if is_note_off c evt then
        evt - NOTE_OFF_OFFSET c \<in> opened \<and> decodes c (opened - {evt - NOTE_OFF_OFFSET c}) rest
      else if is_note_on c evt then
        decodes c (insert (evt - NOTE_ON_OFFSET c) opened) rest
      else decodes c opened rest)"

section \<open>The random source\<close>

text \<open>
  The shared random source of the \<^verbatim>\<open>random\<close> module is an infinite sequence of draws,
  passed through every call that consumes one. \<open>randint a b\<close> is \<^verbatim>\<open>random.randint(a, b)\<close>:
  it raises \<^verbatim>\<open>ValueError\<close> on an empty range and otherwise returns a value of the
  inclusive range, consuming one draw.
\<close>

type_synonym rng = "nat \<Rightarrow> nat"

definition rng_tail :: "rng \<Rightarrow> rng" where
  "rng_tail g = (\<lambda>k. g (Suc k))"

definition randint :: "int \<Rightarrow> int \<Rightarrow> rng \<Rightarrow> error + (int \<times> rng)" where
  "randint a b g =
     (if b < a then Inl ValueError
      else Inr (a + int (g 0 mod nat (b - a + 1)), rng_tail g))"

text \<open>
  \<^verbatim>\<open>random.shuffle(x)\<close>, as the standard library implements it: for \<open>i\<close> from
  \<open>len(x) - 1\<close> down to 1, exchange \<open>x[i]\<close> with \<open>x[j]\<close> for a drawn \<open>j\<close> below \<open>i + 1\<close>.
\<close>

fun shuffle_loop :: "nat \<Rightarrow> 'a list \<Rightarrow> rng \<Rightarrow> 'a list \<times> rng" where
  "shuffle_loop 0 x g = (x, g)"
| "shuffle_loop (Suc k) x g =
     (let i = Suc k; j = g 0 mod (i + 1)
      in shuffle_loop k (x[i := x ! j, j := x ! i]) (rng_tail g))"

definition shuffle :: "'a list \<Rightarrow> rng \<Rightarrow> 'a list \<times> rng" where
  "shuffle x g = shuffle_loop (length x - 1) x g"

text \<open>Sequencing of calls that may raise.\<close>

fun bind_err :: "error + 'a \<Rightarrow> ('a \<Rightarrow> error + 'b) \<Rightarrow> error + 'b" where
  "bind_err (Inl e) f = Inl e"
| "bind_err (Inr x) f = f x"

section \<open>Windowed sampler and augmenter\<close>

text \<open>
  \<^verbatim>\<open>random_subseq(sequence, seq_len)\<close>: the start index is drawn first; the generator it
  returns makes no draw, so it is returned as the list of the events it yields, with
  \<open>start_index\<close> and \<open>end_index\<close>.
\<close>

definition random_subseq ::
  "constants \<Rightarrow> int list \<Rightarrow> nat \<Rightarrow> rng \<Rightarrow> error + ((int list \<times> nat \<times> nat) \<times> rng)" where
  "random_subseq c sequence seq_len g =
     bind_err (randint 0 (int (length sequence) - 1 - int seq_len) g) (\<lambda>(index, g').
       Inr ((generator c sequence seq_len (nat index), nat index, nat index + seq_len), g'))"

text \<open>\<^verbatim>\<open>augment(sequence)\<close>: one draw of the transposition for the whole sequence.\<close>

definition augment :: "constants \<Rightarrow> int list \<Rightarrow> rng \<Rightarrow> error + (int list \<times> rng)" where
  "augment c sequence g =
     bind_err (randint (- 4) 4 g) (\<lambda>(transpose', g').
       if transpose' = 0 then Inr (sequence, g')
       else Inr (map (\<lambda>evt. if evt < TIME_OFFSET c then evt + transpose' else evt) sequence, g'))"

text \<open>
  The transposition as the augmenter is specified: the note number \<open>n\<close> of every note on
  and note off becomes \<open>n + t\<close>, every other event is kept. It is compared with
  \<open>augment\<close> below.
\<close>

definition transposed :: "constants \<Rightarrow> int \<Rightarrow> int list \<Rightarrow> int list" where
  "transposed c t window =
     map (\<lambda>evt.
       if is_note_on c evt then NOTE_ON_OFFSET c + ((evt - NOTE_ON_OFFSET c) + t)
       else if is_note_off c evt then NOTE_OFF_OFFSET c + ((evt - NOTE_OFF_OFFSET c) + t)
       else evt) window"

section \<open>Arrays\<close>

text \<open>
  A tensor is its shape and its elements in row-major order. The progress values are the
  floats 0.0 and 1.0 only, written here as the integers 0 and 1.
\<close>

datatype tensor = Tensor (shape: "nat list") (elems: "int list")

text \<open>
  Python's slice bounds on a sequence of length \<open>n\<close>: a negative bound counts from the end,
  and every bound is clamped into \<open>[0, n]\<close>. \<open>-0\<close> is \<open>0\<close>.
\<close>

definition slice_index :: "nat \<Rightarrow> int \<Rightarrow> nat" where
  "slice_index n k = (if k < 0 then nat (max 0 (int n + k)) else min (nat k) n)"

definition slice :: "'a list \<Rightarrow> int \<Rightarrow> int \<Rightarrow> 'a list" where
  "slice xs a b =
     (let lo = slice_index (length xs) a; hi = slice_index (length xs) b
      in take (hi - lo) (drop lo xs))"

definition slice_from :: "'a list \<Rightarrow> int \<Rightarrow> 'a list" where
  "slice_from xs a = drop (slice_index (length xs) a) xs"

definition slice_upto :: "'a list \<Rightarrow> int \<Rightarrow> 'a list" where
  "slice_upto xs b = take (slice_index (length xs) b) xs"

text \<open>
  \<^verbatim>\<open>progress[start:end, c] = 1\<close> on a two-dimensional array held as its list of rows;
  \<open>None\<close> is the open end of \<^verbatim>\<open>progress[start:, c]\<close>. The column \<open>c\<close> is within the row
  at both places \<^verbatim>\<open>progress_tensor\<close> assigns.
\<close>

definition set_column :: "int list list \<Rightarrow> int \<Rightarrow> int option \<Rightarrow> nat \<Rightarrow> int list list" where
  "set_column progress start end c =
     (let n = length progress;
          lo = slice_index n start;
          hi = (case end of None \<Rightarrow> n | Some e \<Rightarrow> slice_index n e)
      in map (\<lambda>(k, row). if lo \<le> k \<and> k < hi then row[c := 1] else row)
           (enumerate 0 progress))"

text \<open>The array \<^verbatim>\<open>progress\<close> of \<^verbatim>\<open>progress_tensor\<close> before it is made a tensor.\<close>

definition progress_rows :: "int \<Rightarrow> nat \<Rightarrow> int list list" where
  "progress_rows category_level n =
     (let step = int n div category_level;
          progress = replicate n (replicate (nat category_level) 0);
          progress = fold (\<lambda>c p. set_column p (int c * step) (Some (int c * step + step)) c)
                       [0..<nat category_level] progress
      in set_column progress (- (int n mod category_level)) None (nat (category_level - 1)))"

text \<open>
  \<^verbatim>\<open>progress_tensor(seq)\<close>. The floor division raises on a zero category count, and
  \<^verbatim>\<open>np.zeros\<close> on a negative dimension.
\<close>

definition progress_tensor :: "constants \<Rightarrow> int list \<Rightarrow> error + tensor" where
  "progress_tensor c seq =
     (if CATEGORY_LEVEL c = 0 then Inl ZeroDivisionError
      else if CATEGORY_LEVEL c < 0 then Inl ValueError
      else Inr (Tensor [length seq, nat (CATEGORY_LEVEL c)]
                  (concat (progress_rows (CATEGORY_LEVEL c) (length seq)))))"

text \<open>Row \<open>k\<close> of a two-dimensional tensor.\<close>

definition tensor_row :: "tensor \<Rightarrow> nat \<Rightarrow> int list" where
  "tensor_row t k = (let w = shape t ! 1 in take w (drop (k * w) (elems t)))"

text \<open>
  \<^verbatim>\<open>t[start:end]\<close> on a tensor: a slice of its leading axis. A tensor without an axis
  cannot be sliced.
\<close>

definition tensor_slice :: "tensor \<Rightarrow> int \<Rightarrow> int \<Rightarrow> error + tensor" where
  "tensor_slice t start end =
     (case shape t of
        [] \<Rightarrow> Inl IndexError
      | n # rest \<Rightarrow>
          let lo = slice_index n start; hi = slice_index n end; w = prod_list rest
          in Inr (Tensor ((hi - lo) # rest) (take ((hi - lo) * w) (drop (lo * w) (elems t)))))"


text \<open>\<^verbatim>\<open>torch.LongTensor(xs)\<close> of a list of integers: a tensor with one axis.\<close>

definition LongTensor :: "int list \<Rightarrow> tensor" where
  "LongTensor xs = Tensor [length xs] xs"

text \<open>
  Modelled from the spec: \<^verbatim>\<open>gen_to_tensor\<close> of \<^verbatim>\<open>util.py\<close>, which is not among the
  sources. The sampler returns the events of the window as an array with one axis.
\<close>

definition gen_to_tensor :: "int list \<Rightarrow> tensor" where
  "gen_to_tensor evts = LongTensor evts"

text \<open>\<^verbatim>\<open>xs[k]\<close> for a Python integer \<open>k\<close>.\<close>

definition index_py :: "'a list \<Rightarrow> int \<Rightarrow> error + 'a" where
  "index_py xs k =
     (let n = int (length xs); j = (if k < 0 then n + k else k)
      in if 0 \<le> j \<and> j < n then Inr (xs ! nat j) else Inl IndexError)"

section \<open>Floats\<close>

text \<open>
  A Python float is an IEEE binary64 number: a finite value, held here as the rational it
  denotes (the two zeros are one value), an infinity or a NaN.
\<close>

datatype pyfloat = Finite rat | PosInf | NegInf | NaN

definition pow2 :: "int \<Rightarrow> rat" where
  "pow2 e = (if 0 \<le> e then 2 ^ nat e else 1 / 2 ^ nat (- e))"

text \<open>The exponent \<open>E\<close> with \<open>2^E \<le> x < 2^(E+1)\<close>, for a positive \<open>x\<close>.\<close>

definition floor_log2 :: "rat \<Rightarrow> int" where
  "floor_log2 x = (if 1 \<le> x then bitlen \<lfloor>x\<rfloor> - 1 else - bitlen (\<lceil>1 / x\<rceil> - 1))"

text \<open>Rounding to the nearest integer, a tie to the even one.\<close>

definition round_half_even :: "rat \<Rightarrow> int" where
  "round_half_even q =
     (let f = \<lfloor>q\<rfloor>; d = q - of_int f
      in if d < 1 / 2 then f else if 1 / 2 < d then f + 1 else if even f then f else f + 1)"

text \<open>
  Rounding of an exact value to binary64, to nearest with ties to even: the result is
  \<open>m * 2^e\<close> for an integer \<open>m\<close> of at most 53 bits, with the least exponent \<open>-1074\<close> (the
  subnormal range), and an infinity when the rounded value reaches \<open>2^1024\<close>, which is when
  \<open>e\<close> and the bit length of \<open>m\<close> add up to more than 1024. This is the result of every
  float operation on its exact result, and the value of a decimal literal such as
  \<^verbatim>\<open>0.05\<close>.
\<close>

definition round_double :: "rat \<Rightarrow> pyfloat" where
  "round_double x =
     (if x = 0 then Finite 0
      else
        let e = max (floor_log2 \<bar>x\<bar> - 52) (- 1074);
            m = round_half_even (x / pow2 e)
        in if 1024 < e + bitlen \<bar>m\<bar> then (if 0 < x then PosInf else NegInf)
           else Finite (of_int m * pow2 e))"

text \<open>
  \<^verbatim>\<open>n * f\<close> for an integer \<open>n\<close> and a float \<open>f\<close>: the integer is converted to a float
  (\<^verbatim>\<open>OverflowError\<close> when it is too large), then the two floats are multiplied.
\<close>

definition int_times_float :: "int \<Rightarrow> pyfloat \<Rightarrow> error + pyfloat" where
  "int_times_float n f =
     (case round_double (of_int n) of
        Finite a \<Rightarrow>
          Inr (case f of
                 Finite b \<Rightarrow> round_double (a * b)
               | PosInf \<Rightarrow> (if a = 0 then NaN else if 0 < a then PosInf else NegInf)
               | NegInf \<Rightarrow> (if a = 0 then NaN else if 0 < a then NegInf else PosInf)
               | NaN \<Rightarrow> NaN)
      | _ \<Rightarrow> Inl OverflowError)"

text \<open>\<^verbatim>\<open>int(math.ceil(x))\<close> for a float \<open>x\<close>.\<close>

definition math_ceil :: "pyfloat \<Rightarrow> error + int" where
  "math_ceil x =
     (case x of
        Finite r \<Rightarrow> Inr \<lceil>r\<rceil>
      | NaN \<Rightarrow> Inl ValueError
      | _ \<Rightarrow> Inl OverflowError)"

section \<open>Corpus: processing and validation split\<close>

text \<open>
  A data triple \<open>(seqs, style_tags, progresses)\<close>.
\<close>

type_synonym data = "int list list \<times> int list \<times> tensor list"

text \<open>A list comprehension over calls that may raise: the first error ends it.\<close>

fun map_err :: "('a \<Rightarrow> error + 'b) \<Rightarrow> 'a list \<Rightarrow> error + 'b list" where
  "map_err f [] = Inr []"
| "map_err f (x # xs) =
     bind_err (f x) (\<lambda>y. bind_err (map_err f xs) (\<lambda>ys. Inr (y # ys)))"

text \<open>\<^verbatim>\<open>process(style_seqs)\<close>.\<close>

definition process :: "constants \<Rightarrow> int list list list \<Rightarrow> error + data" where
  "process c style_seqs =
     (let seqs = concat style_seqs;
          style_tags = concat (map (\<lambda>(s, y). replicate (length y) (int s)) (enumerate 0 style_seqs))
      in bind_err (map_err (progress_tensor c) seqs) (\<lambda>progresses.
           Inr (seqs, style_tags, progresses)))"

text \<open>\<^verbatim>\<open>int(math.ceil(len(r) * split))\<close>, for a list \<open>r\<close> of \<open>n\<close> elements.\<close>

definition num_val_of :: "nat \<Rightarrow> pyfloat \<Rightarrow> error + int" where
  "num_val_of n split = bind_err (int_times_float (int n) split) math_ceil"

text \<open>
  The first half of \<^verbatim>\<open>validation_split\<close>: the shuffled indices, \<^verbatim>\<open>num_val\<close>, the two
  slices and the two assertions.
\<close>

definition split_indicies ::
  "nat \<Rightarrow> pyfloat \<Rightarrow> rng \<Rightarrow> error + ((nat list \<times> nat list) \<times> rng)" where
  "split_indicies m split g =
     (let (r, g') = shuffle [0..<m] g
      in bind_err (num_val_of (length r) split) (\<lambda>num_val.
           let train_indicies = slice_upto r (- num_val);
               val_indicies = slice_from r (- num_val)
           in if int (length val_indicies) \<noteq> num_val then Inl AssertionError
              else if int (length train_indicies) \<noteq> int (length r) - num_val
                then Inl AssertionError
              else Inr ((train_indicies, val_indicies), g')))"

text \<open>\<^verbatim>\<open>[xs[i] for i in indices]\<close>.\<close>

definition select :: "'a list \<Rightarrow> nat list \<Rightarrow> error + 'a list" where
  "select xs indices = map_err (\<lambda>i. index_py xs (int i)) indices"

definition validation_split ::
  "data \<Rightarrow> pyfloat \<Rightarrow> rng \<Rightarrow> error + ((data \<times> data) \<times> rng)" where
  "validation_split data' split g =
     (case data' of (seqs, style_tags, progresses) \<Rightarrow>
        bind_err (split_indicies (length seqs) split g) (\<lambda>((train_indicies, val_indicies), g').
        bind_err (select seqs train_indicies) (\<lambda>train_seqs.
        bind_err (select seqs val_indicies) (\<lambda>val_seqs.
        bind_err (select style_tags train_indicies) (\<lambda>train_style_tags.
        bind_err (select style_tags val_indicies) (\<lambda>val_style_tags.
        bind_err (select progresses train_indicies) (\<lambda>train_progresses.
        bind_err (select progresses val_indicies) (\<lambda>val_progresses.
          Inr (((train_seqs, train_style_tags, train_progresses),
                (val_seqs, val_style_tags, val_progresses)), g')))))))))"

section \<open>Sampler and batcher\<close>

type_synonym sample = "tensor \<times> tensor \<times> tensor"

text \<open>The inner function \<^verbatim>\<open>sample(seq_len)\<close> of \<^verbatim>\<open>sampler(data)\<close>.\<close>

definition sample :: "constants \<Rightarrow> data \<Rightarrow> nat \<Rightarrow> rng \<Rightarrow> error + (sample \<times> rng)" where
  "sample c data' seq_len g =
     (case data' of (seqs, style_tags, progresses) \<Rightarrow>
        bind_err (randint 0 (int (length seqs) - 1) g) (\<lambda>(seq_id, g1).
        bind_err (index_py seqs seq_id) (\<lambda>sequence.
        bind_err (random_subseq c sequence seq_len g1) (\<lambda>((subseq, start_index, end_index), g2).
        bind_err (index_py progresses seq_id) (\<lambda>progress.
        bind_err (augment c subseq g2) (\<lambda>(augmented, g3).
        bind_err (tensor_slice progress (int start_index) (int end_index)) (\<lambda>progress_slice.
          Inr ((gen_to_tensor augmented,
                LongTensor (slice style_tags seq_id (seq_id + 1)),
                progress_slice), g3))))))))"

text \<open>
  \<^verbatim>\<open>sampler(data)\<close>: the check on the number of sequences is made when the sampler is
  built, and the sampling function is what it returns. The statement
  \<^verbatim>\<open>raise 'Insufficient training data.'\<close> raises a string, which is not an exception:
  what is raised is a \<^verbatim>\<open>TypeError\<close>.
\<close>

definition sampler ::
  "constants \<Rightarrow> data \<Rightarrow> error + (nat \<Rightarrow> rng \<Rightarrow> error + (sample \<times> rng))" where
  "sampler c data' =
     (case data' of (seqs, style_tags, progresses) \<Rightarrow>
        if length seqs = 0 then Inl TypeError
        else Inr (sample c data'))"




text \<open>The row of \<open>C\<close> categories with category \<open>k\<close> set, and no other.\<close>

definition one_hot :: "nat \<Rightarrow> nat \<Rightarrow> int list" where
  "one_hot C k = (replicate C 0)[k := 1]"

text \<open>A tensor holds as many elements as its shape says.\<close>

definition wf_tensor :: "tensor \<Rightarrow> bool" where
  "wf_tensor t = (length (elems t) = prod_list (shape t))"


definition aligned :: "nat \<Rightarrow> data \<Rightarrow> bool" where
  "aligned C data' =
     (case data' of (seqs, style_tags, progresses) \<Rightarrow>
        length style_tags = length seqs \<and> length progresses = length seqs \<and>
        list_all (\<lambda>(s, p). shape p = [length s, C] \<and> wf_tensor p) (zip seqs progresses))"

text \<open>Constants with the layout of the code ranges, small enough to evaluate examples.\<close>

definition example_constants :: constants where
  "example_constants =
     \<lparr>NUM_NOTES = 8, TIME_QUANTIZATION = 4, NOTE_ON_OFFSET = 0, NOTE_OFF_OFFSET = 8,
      TIME_OFFSET = 16, CATEGORY_LEVEL = 3\<rparr>"

text \<open>A random source whose every draw is \<open>n\<close>, and a corpus of one composition.\<close>

definition constant_rng :: "nat \<Rightarrow> rng" where
  "constant_rng n = (\<lambda>k. n)"

definition example_data :: data where
  "example_data =
     ([[5, 18, 13, 7]], [0], [Tensor [4, 3] [1, 0, 0, 0, 1, 0, 0, 0, 1, 0, 0, 1]])"

text \<open>A corpus of \<open>n\<close> copies of one composition.\<close>

definition example_corpus :: "nat \<Rightarrow> data" where
  "example_corpus n =
     (replicate n [5, 18, 13, 7], replicate n 0,
      replicate n (Tensor [4, 3] [1, 0, 0, 0, 1, 0, 0, 0, 1, 0, 0, 1]))"

section \<open>Properties of the window generator\<close>


lemma trace_unfold:
  "generator_trace c s L (ns, i, cur) =
     (if i < L then ((ns, i, cur), gen_step c s (ns, i, cur)) #
        generator_trace c s L (snd (gen_step c s (ns, i, cur))) else [])"
  by (subst generator_trace.simps) simp

lemma gen_step_pad:
  "length s \<le> cur \<Longrightarrow> gen_step c s (ns, i, cur) = (Some (max_silence c), (ns, Suc i, Suc cur))"
  by simp

lemma gen_step_skip:
  "cur < length s \<Longrightarrow> is_note_off c (s ! cur) \<Longrightarrow> s ! cur - NOTE_OFF_OFFSET c \<notin> ns \<Longrightarrow>
   gen_step c s (ns, i, cur) = (None, (ns, i, Suc cur))"
  by (simp add: is_note_off_def)

lemma gen_step_off:
  "cur < length s \<Longrightarrow> is_note_off c (s ! cur) \<Longrightarrow> s ! cur - NOTE_OFF_OFFSET c \<in> ns \<Longrightarrow>
   gen_step c s (ns, i, cur) =
     (Some (s ! cur), (ns - {s ! cur - NOTE_OFF_OFFSET c}, Suc i, Suc cur))"
  by (simp add: is_note_off_def Let_def)

lemma gen_step_on:
  "cur < length s \<Longrightarrow> is_note_on c (s ! cur) \<Longrightarrow>
   gen_step c s (ns, i, cur) =
     (Some (s ! cur), (insert (s ! cur - NOTE_ON_OFFSET c) ns, Suc i, Suc cur))"
  by (simp add: is_note_on_def Let_def)

lemma gen_step_other:
  "cur < length s \<Longrightarrow> \<not> is_note_on c (s ! cur) \<Longrightarrow> \<not> is_note_off c (s ! cur) \<Longrightarrow>
   gen_step c s (ns, i, cur) = (Some (s ! cur), (ns, Suc i, Suc cur))"
  by (auto simp add: is_note_on_def is_note_off_def Let_def)

declare gen_step.simps [simp del]

lemma not_on_and_off: "is_note_on c e \<Longrightarrow> \<not> is_note_off c e"
  by (simp add: is_note_on_def is_note_off_def)

lemma take_pad_cons: "take (d - n) (p # replicate d p) = replicate (d - n) p"
proof -
  have "take (d - n) (replicate (Suc d) p) = replicate (min (d - n) (Suc d)) p"
    by (rule take_replicate)
  then show ?thesis by (simp add: min_def)
qed

lemma trace_events:
  "List.map_filter (\<lambda>(st, y, st'). y) (generator_trace c s L (ns, i, cur)) =
     take (L - i) (repair c ns (drop cur s) @ replicate (L - i) (max_silence c))"
proof (induction "(L - i) + (length s - cur)" arbitrary: ns i cur rule: less_induct)
  case less
  let ?ev = "\<lambda>ns i cur. List.map_filter (\<lambda>(st, y, st'). y) (generator_trace c s L (ns, i, cur))"
  show ?case
  proof (cases "i < L")
    case False
    then show ?thesis by (simp add: trace_unfold map_filter_simps)
  next
    case True
    then obtain d where d: "L - i = Suc d" "L - Suc i = d"
      by (metis Suc_diff_Suc)
    show ?thesis
    proof (cases "length s \<le> cur")
      case True
      have "?ev ns i cur = max_silence c # ?ev ns (Suc i) (Suc cur)"
        using \<open>i < L\<close> by (simp add: trace_unfold[of c s L ns i cur] gen_step_pad[OF True] map_filter_simps)
      also have "?ev ns (Suc i) (Suc cur) =
          take (L - Suc i) (repair c ns (drop (Suc cur) s) @ replicate (L - Suc i) (max_silence c))"
        using \<open>i < L\<close> by (intro less) arith
      finally show ?thesis using True d by simp
    next
      case False
      then have lt: "cur < length s" by simp
      then have dr: "drop cur s = s ! cur # drop (Suc cur) s"
        by (simp add: Cons_nth_drop_Suc)
      have IHs: "?ev ns' (Suc i) (Suc cur) =
          take d (repair c ns' (drop (Suc cur) s) @ replicate d (max_silence c))" for ns'
        using less[of "Suc i" "Suc cur" ns'] \<open>i < L\<close> lt d by simp
      have IHk: "?ev ns i (Suc cur) =
          take (Suc d) (repair c ns (drop (Suc cur) s) @ replicate (Suc d) (max_silence c))"
        using less[of i "Suc cur" ns] \<open>i < L\<close> lt d by simp
      consider
          (skip) "is_note_off c (s ! cur)" "s ! cur - NOTE_OFF_OFFSET c \<notin> ns"
        | (off) "is_note_off c (s ! cur)" "s ! cur - NOTE_OFF_OFFSET c \<in> ns"
        | (on) "is_note_on c (s ! cur)"
        | (other) "\<not> is_note_on c (s ! cur)" "\<not> is_note_off c (s ! cur)"
        by blast
      then show ?thesis
      proof cases
        case skip
        have "?ev ns i cur = ?ev ns i (Suc cur)"
          using \<open>i < L\<close>
          by (simp add: trace_unfold[of c s L ns i cur] gen_step_skip[OF lt skip] map_filter_simps)
        then show ?thesis using IHk skip d dr by simp
      next
        case off
        have "?ev ns i cur = s ! cur # ?ev (ns - {s ! cur - NOTE_OFF_OFFSET c}) (Suc i) (Suc cur)"
          using \<open>i < L\<close>
          by (simp add: trace_unfold[of c s L ns i cur] gen_step_off[OF lt off] map_filter_simps)
        then show ?thesis using IHs off d dr by (simp add: take_pad_cons)
      next
        case on
        have "?ev ns i cur = s ! cur # ?ev (insert (s ! cur - NOTE_ON_OFFSET c) ns) (Suc i) (Suc cur)"
          using \<open>i < L\<close>
          by (simp add: trace_unfold[of c s L ns i cur] gen_step_on[OF lt on] map_filter_simps)
        then show ?thesis using IHs on not_on_and_off[OF on] d dr by (simp add: take_pad_cons)
      next
        case other
        have "?ev ns i cur = s ! cur # ?ev ns (Suc i) (Suc cur)"
          using \<open>i < L\<close>
          by (simp add: trace_unfold[of c s L ns i cur] gen_step_other[OF lt other] map_filter_simps)
        then show ?thesis using IHs other d dr by (simp add: take_pad_cons)
      qed
    qed
  qed
qed


lemma trace_member:
  "x \<in> set (generator_trace c s L st) \<Longrightarrow> snd x = gen_step c s (fst x) \<and> fst (snd (fst x)) < L"
proof (induction c s L st rule: generator_trace.induct)
  case (1 c s L st)
  show ?case
  proof (cases "fst (snd st) < L")
    case True
    with 1 show ?thesis
      by (subst (asm) (2) generator_trace.simps) auto
  next
    case False
    with 1(2) show ?thesis
      by (subst (asm) generator_trace.simps) simp
  qed
qed

lemma gen_step_cursor: "snd (snd (snd (gen_step c s st))) = Suc (snd (snd st))"
  by (cases st) (simp add: gen_step.simps Let_def)

lemma trace_length:
  "length (generator_trace c s L (ns, i, cur)) \<le> (L - i) + (length s - cur)"
proof (induction "(L - i) + (length s - cur)" arbitrary: ns i cur rule: less_induct)
  case less
  show ?case
  proof (cases "i < L")
    case False
    then show ?thesis by (simp add: trace_unfold)
  next
    case True
    obtain ns' i' cur' where st': "snd (gen_step c s (ns, i, cur)) = (ns', i', cur')"
      by (metis prod_cases3)
    have cur': "cur' = Suc cur"
      using gen_step_cursor[of c s "(ns, i, cur)"] st' by simp
    have slot: "i' = i \<and> cur < length s \<or> i' = Suc i"
      using st' by (auto simp: gen_step.simps Let_def split: if_splits)
    have "length (generator_trace c s L (ns', i', cur')) \<le> (L - i') + (length s - cur')"
      using True cur' slot by (intro less) auto
    then show ?thesis
      using True cur' slot st' by (auto simp: trace_unfold[of c s L ns i cur])
  qed
qed

lemma decodes_repair: "decodes c ns (repair c ns xs)"
  by (induction xs arbitrary: ns) (auto dest: not_on_and_off)

lemma decodes_take: "decodes c ns w \<Longrightarrow> decodes c ns (take n w)"
proof (induction w arbitrary: ns n)
  case Nil
  then show ?case by simp
next
  case (Cons e w)
  then show ?case by (cases n) (auto split: if_splits)
qed

lemma decodes_append:
  "decodes c ns xs \<Longrightarrow> (\<And>ns'. decodes c ns' ys) \<Longrightarrow> decodes c ns (xs @ ys)"
  by (induction xs arbitrary: ns) (auto split: if_splits)

lemma decodes_pad:
  "\<not> is_note_off c p \<Longrightarrow> decodes c ns (replicate n p)"
  by (induction n arbitrary: ns) auto

lemma valid_pad: "valid_constants c \<Longrightarrow> \<not> is_note_off c (max_silence c)"
  by (simp add: valid_constants_def is_note_off_def max_silence_def)

lemma generator_eq:
  "generator c s L index = take L (repair c {} (drop index s) @ replicate L (max_silence c))"
  using trace_events[of c s L "{}" 0 index] by (simp add: generator_def)

lemma generator_decodes:
  "valid_constants c \<Longrightarrow> decodes c {} (generator c s L index)"
  unfolding generator_eq
  by (intro decodes_take decodes_append decodes_repair decodes_pad valid_pad)

text \<open>What it is for the note off at position \<open>j\<close> of \<open>w\<close> to close a note opened at an earlier position.\<close>

lemma decodes_opened:
  "decodes c ns w \<Longrightarrow> j < length w \<Longrightarrow> is_note_off c (w ! j) \<Longrightarrow>
     (w ! j - NOTE_OFF_OFFSET c \<in> ns \<and> (\<forall>k<j. w ! k \<noteq> w ! j)) \<or>
     (\<exists>i<j. is_note_on c (w ! i) \<and> w ! i - NOTE_ON_OFFSET c = w ! j - NOTE_OFF_OFFSET c \<and>
        (\<forall>k. i < k \<and> k < j \<longrightarrow> w ! k \<noteq> w ! j))"
proof (induction w arbitrary: ns j)
  case Nil
  then show ?case by simp
next
  case (Cons e w)
  show ?case
  proof (cases j)
    case 0
    with Cons.prems show ?thesis by simp
  next
    case (Suc j')
    let ?n = "w ! j' - NOTE_OFF_OFFSET c"
    from Cons.prems Suc have j': "j' < length w" and off: "is_note_off c (w ! j')"
      by simp_all
    define ns' where "ns' =
      (if is_note_off c e then ns - {e - NOTE_OFF_OFFSET c}
       else if is_note_on c e then insert (e - NOTE_ON_OFFSET c) ns else ns)"
    from Cons.prems(1) have dec: "decodes c ns' w"
      by (auto simp: ns'_def split: if_splits)
    from Cons.IH[OF dec j' off]
    consider (inset) "?n \<in> ns'" "\<forall>k<j'. w ! k \<noteq> w ! j'"
      | (opened) i where "i < j'" "is_note_on c (w ! i)"
          "w ! i - NOTE_ON_OFFSET c = ?n" "\<forall>k. i < k \<and> k < j' \<longrightarrow> w ! k \<noteq> w ! j'"
      by blast
    then show ?thesis
    proof cases
      case opened
      have "\<forall>k. Suc i < k \<and> k < Suc j' \<longrightarrow> (e # w) ! k \<noteq> (e # w) ! Suc j'"
      proof (intro allI impI)
        fix k assume k: "Suc i < k \<and> k < Suc j'"
        then obtain k' where "k = Suc k'" by (cases k) auto
        with k opened(4) show "(e # w) ! k \<noteq> (e # w) ! Suc j'" by simp
      qed
      with opened Suc show ?thesis
        by (intro disjI2 exI[of _ "Suc i"]) simp
    next
      case inset
      have later: "\<forall>k. 0 < k \<and> k < Suc j' \<longrightarrow> (e # w) ! k \<noteq> (e # w) ! Suc j'"
      proof (intro allI impI)
        fix k assume k: "0 < k \<and> k < Suc j'"
        then obtain k' where "k = Suc k'" by (cases k) auto
        with k inset(2) show "(e # w) ! k \<noteq> (e # w) ! Suc j'" by simp
      qed
      show ?thesis
      proof (cases "is_note_on c e \<and> e - NOTE_ON_OFFSET c = ?n")
        case True
        with later Suc show ?thesis
          by (intro disjI2 exI[of _ 0]) simp
      next
        case False
        have ne: "e \<noteq> w ! j'"
        proof
          assume "e = w ! j'"
          with off inset(1) False show False
            by (auto simp: ns'_def dest: not_on_and_off)
        qed
        have "?n \<in> ns"
          using inset(1) False by (auto simp: ns'_def split: if_splits)
        moreover have "\<forall>k<Suc j'. (e # w) ! k \<noteq> (e # w) ! Suc j'"
        proof (intro allI impI)
          fix k assume k: "k < Suc j'"
          show "(e # w) ! k \<noteq> (e # w) ! Suc j'"
          proof (cases k)
            case 0
            with ne show ?thesis by simp
          next
            case (Suc k')
            with k inset(2) show ?thesis by simp
          qed
        qed
        ultimately show ?thesis using Suc by simp
      qed
    qed
  qed
qed



lemma example_valid: "valid_constants example_constants"
  by (simp add: valid_constants_def example_constants_def)

lemmas example_simps =
  example_constants_def is_note_off_def is_note_on_def max_silence_def

lemma generator_length: "length (generator c s L index) = L"
  by (simp add: generator_eq)

lemma trace_cursor:
  "list_all (\<lambda>(st, y, st'). snd (snd st') = Suc (snd (snd st))) (generator_trace c s L st0)"
  unfolding list_all_iff
proof
  fix x assume "x \<in> set (generator_trace c s L st0)"
  from trace_member[OF this] gen_step_cursor[of c s "fst x"]
  show "case x of (st, y, st') \<Rightarrow> snd (snd st') = Suc (snd (snd st))"
    by (cases x) (auto simp: snd_def split: prod.splits)
qed

text \<open>
  Claim C10. The loop of the generator is a total function (its termination is proved with
  the definition of \<open>generator_trace\<close>). For every sequence, start index and target length it
  runs at most \<open>len(sequence) + seq_len\<close> iterations, every iteration advances the cursor
  \<open>current\<close> by one, and exactly \<open>seq_len\<close> events are yielded.
\<close>

theorem generator_loop_bounded:
  "length (generator_trace c sequence seq_len ({}, 0, index)) \<le> length sequence + seq_len \<and>
   list_all (\<lambda>(st, y, st'). snd (snd st') = Suc (snd (snd st)))
     (generator_trace c sequence seq_len ({}, 0, index)) \<and>
   length (generator c sequence seq_len index) = seq_len"
proof (intro conjI)
  have "length (generator_trace c sequence seq_len ({}, 0, index))
          \<le> (seq_len - 0) + (length sequence - index)"
    by (rule trace_length)
  then show "length (generator_trace c sequence seq_len ({}, 0, index)) \<le> length sequence + seq_len"
    by simp
qed (rule trace_cursor, rule generator_length)

lemma trace_padding:
  "list_all (\<lambda>(st, y, st'). length s \<le> snd (snd st) \<longrightarrow>
       y = Some (max_silence c) \<and> fst st' = fst st) (generator_trace c s L st0)"
  unfolding list_all_iff
proof
  fix x assume "x \<in> set (generator_trace c s L st0)"
  from trace_member[OF this]
  show "case x of (st, y, st') \<Rightarrow> length s \<le> snd (snd st) \<longrightarrow>
          y = Some (max_silence c) \<and> fst st' = fst st"
    by (cases x) (auto simp: gen_step_pad)
qed

text \<open>
  Claim C3. The window has exactly \<open>seq_len\<close> events for every start index: the events that
  the repair keeps from the source, in order, and after them the maximum-silence time shift
  in every remaining slot; an iteration that runs with the cursor past the end of the source
  yields the padding event and leaves the sounding set as it was.
\<close>

theorem window_length_and_padding:
  "length (generator c sequence seq_len index) = seq_len \<and>
   generator c sequence seq_len index =
     take seq_len (repair c {} (drop index sequence) @ replicate seq_len (max_silence c)) \<and>
   (\<forall>j. length (repair c {} (drop index sequence)) \<le> j \<and> j < seq_len \<longrightarrow>
        generator c sequence seq_len index ! j = max_silence c) \<and>
   list_all (\<lambda>(st, y, st'). length sequence \<le> snd (snd st) \<longrightarrow>
       y = Some (max_silence c) \<and> fst st' = fst st)
     (generator_trace c sequence seq_len ({}, 0, index))"
proof (intro conjI allI impI)
  fix j
  assume j: "length (repair c {} (drop index sequence)) \<le> j \<and> j < seq_len"
  then have "j - length (repair c {} (drop index sequence))
      < seq_len - length (repair c {} (drop index sequence))"
    by arith
  with j show "generator c sequence seq_len index ! j = max_silence c"
    by (simp add: generator_eq nth_append)
qed (rule generator_length, rule generator_eq, rule trace_padding)


theorem window_length_and_padding_witness:
  "generator example_constants [5, 18, 13, 7] 3 2 = [7, 19, 19] \<and>
   length (generator example_constants [5, 18, 13, 7] 3 2) = 3 \<and>
   length (repair example_constants {} (drop 2 [5, 18, 13, 7])) = 1 \<and>
   generator example_constants [5, 18, 13, 7] 3 2 ! 1 = max_silence example_constants \<and>
   generator example_constants [5, 18, 13, 7] 3 2 ! 2 = max_silence example_constants \<and>
   generator_trace example_constants [5, 18, 13, 7] 3 ({}, 0, 2) =
     [(({}, 0, 2), None, ({}, 0, 3)), (({}, 0, 3), Some 7, ({7}, 1, 4)),
      (({7}, 1, 4), Some 19, ({7}, 2, 5)), (({7}, 2, 5), Some 19, ({7}, 3, 6))]"
proof -
  have r: "repair example_constants {} (drop 2 [5, 18, 13, 7]) = [7]"
    by (simp add: example_simps)
  have t: "generator_trace example_constants [5, 18, 13, 7] 3 ({}, 0, 2) =
     [(({}, 0, 2), None, ({}, 0, 3)), (({}, 0, 3), Some 7, ({7}, 1, 4)),
      (({7}, 1, 4), Some 19, ({7}, 2, 5)), (({7}, 2, 5), Some 19, ({7}, 3, 6))]"
    by (simp add: trace_unfold gen_step.simps example_simps)
  have m: "max_silence example_constants = 19"
    by (simp add: example_simps)
  note W = window_length_and_padding[of example_constants "[5, 18, 13, 7]" 3 2]
  from W have len: "length (generator example_constants [5, 18, 13, 7] 3 2) = 3"
    by (rule conjunct1)
  from W have eq: "generator example_constants [5, 18, 13, 7] 3 2 = [7, 19, 19]"
    unfolding r m by (simp add: numeral_3_eq_3)
  from W have pad: "length (repair example_constants {} (drop 2 [5, 18, 13, 7])) \<le> j \<and> j < 3
      \<longrightarrow> generator example_constants [5, 18, 13, 7] 3 2 ! j = max_silence example_constants" for j
    by blast
  from pad[of 1] pad[of 2] have
    "generator example_constants [5, 18, 13, 7] 3 2 ! 1 = max_silence example_constants"
    "generator example_constants [5, 18, 13, 7] 3 2 ! 2 = max_silence example_constants"
    unfolding r by simp_all
  with len eq r t show ?thesis by simp
qed

text \<open>
  Claim C2. In every window that \<^verbatim>\<open>random_subseq\<close> returns, a decoder never meets a note off
  for a note that is not open: every note off in the window is preceded, within the window,
  by the note on of the same note, with no other note off of that note in between.
\<close>

theorem random_subseq_no_orphans:
  assumes "valid_constants c"
    and "random_subseq c sequence seq_len g = Inr ((w, start_index, end_index), g')"
  shows "decodes c {} w \<and>
    (\<forall>j<length w. is_note_off c (w ! j) \<longrightarrow>
       (\<exists>i<j. is_note_on c (w ! i) \<and>
          w ! i - NOTE_ON_OFFSET c = w ! j - NOTE_OFF_OFFSET c \<and>
          (\<forall>k. i < k \<and> k < j \<longrightarrow> w ! k \<noteq> w ! j)))"
proof -
  from assms(2) obtain index where w: "w = generator c sequence seq_len index"
    by (auto simp: random_subseq_def randint_def split: if_splits)
  have dec: "decodes c {} w"
    unfolding w using assms(1) by (rule generator_decodes)
  show ?thesis
  proof (intro conjI allI impI)
    fix j assume "j < length w" "is_note_off c (w ! j)"
    from decodes_opened[OF dec this]
    show "\<exists>i<j. is_note_on c (w ! i) \<and>
          w ! i - NOTE_ON_OFFSET c = w ! j - NOTE_OFF_OFFSET c \<and>
          (\<forall>k. i < k \<and> k < j \<longrightarrow> w ! k \<noteq> w ! j)"
      by simp
  qed (rule dec)
qed

theorem random_subseq_no_orphans_witness:
  "valid_constants example_constants \<and>
   random_subseq example_constants [13, 5, 13, 13, 18] 3 (\<lambda>_. 0) =
     Inr (([5, 13, 18], 0, 3), rng_tail (\<lambda>_. 0)) \<and>
   decodes example_constants {} [5, 13, 18] \<and>
   is_note_off example_constants ([5, 13, 18] ! 1) \<and>
   (\<exists>i<1. is_note_on example_constants ([5, 13, 18] ! i) \<and>
      [5, 13, 18] ! i - NOTE_ON_OFFSET example_constants =
      [5, 13, 18] ! 1 - NOTE_OFF_OFFSET example_constants)"
proof -
  have r: "random_subseq example_constants [13, 5, 13, 13, 18] 3 (\<lambda>_. 0) =
     Inr (([5, 13, 18], 0, 3), rng_tail (\<lambda>_. 0))"
    by (simp add: random_subseq_def randint_def generator_eq example_simps numeral_3_eq_3)
  have off: "is_note_off example_constants ([5, 13, 18] ! 1)"
    by (simp add: example_simps)
  note W = random_subseq_no_orphans[OF example_valid r]
  from W have dec: "decodes example_constants {} [5, 13, 18]"
    by (rule conjunct1)
  have "\<exists>i<1. is_note_on example_constants ([5, 13, 18] ! i) \<and>
          [5, 13, 18] ! i - NOTE_ON_OFFSET example_constants =
            [5, 13, 18] ! 1 - NOTE_OFF_OFFSET example_constants \<and>
          (\<forall>k. i < k \<and> k < 1 \<longrightarrow> [5, 13, 18 :: int] ! k \<noteq> [5, 13, 18] ! 1)"
    by (rule conjunct2[OF W, rule_format, of 1]) (simp_all add: example_simps)
  with example_valid r dec off show ?thesis by blast
qed

section \<open>The augmenter, the sampler's construction and the start index\<close>


lemma constant_rng_tail: "rng_tail (constant_rng n) = constant_rng n"
  by (simp add: rng_tail_def constant_rng_def)

lemma valid_pitch:
  "valid_constants c \<Longrightarrow> evt < TIME_OFFSET c \<longleftrightarrow> is_note_on c evt \<or> is_note_off c evt"
  by (auto simp: valid_constants_def is_note_on_def is_note_off_def)

lemma transposed_code:
  assumes "valid_constants c"
  shows "map (\<lambda>evt. if evt < TIME_OFFSET c then evt + t else evt) window = transposed c t window"
  unfolding transposed_def using valid_pitch[OF assms] by (intro map_cong) auto

lemma transposed_0: "transposed c 0 window = window"
  by (simp add: transposed_def map_idI)

lemma augment_eq:
  assumes "valid_constants c"
  shows "augment c window g = Inr (transposed c (- 4 + int (g 0 mod 9)) window, rng_tail g)"
  using transposed_code[OF assms] by (simp add: augment_def randint_def transposed_0)

text \<open>
  Claim C8. The augmenter makes one draw \<open>t\<close> in \<open>[-4, 4]\<close> for the whole window (the random
  source advances by one draw), every value of that range can be drawn, the result is the
  window with the note number of every note on and note off replaced by \<open>n + t\<close> and every
  other event unchanged, and with \<open>t = 0\<close> the window itself is returned.
\<close>

theorem augment_transposes:
  assumes "valid_constants c"
  shows "(\<exists>t. - 4 \<le> t \<and> t \<le> 4 \<and>
            augment c window g = Inr (transposed c t window, rng_tail g) \<and>
            (t = 0 \<longrightarrow> augment c window g = Inr (window, rng_tail g))) \<and>
         (\<forall>t. - 4 \<le> t \<and> t \<le> 4 \<longrightarrow>
            (\<exists>g'. augment c window g' = Inr (transposed c t window, rng_tail g')))"
proof (intro conjI allI impI)
  show "\<exists>t. - 4 \<le> t \<and> t \<le> 4 \<and>
            augment c window g = Inr (transposed c t window, rng_tail g) \<and>
            (t = 0 \<longrightarrow> augment c window g = Inr (window, rng_tail g))"
    by (rule exI[of _ "- 4 + int (g 0 mod 9)"])
       (auto simp: augment_eq[OF assms] transposed_0)
next
  fix t :: int assume t: "- 4 \<le> t \<and> t \<le> 4"
  then have "nat (t + 4) < 9" by arith
  then have "nat (t + 4) mod 9 = nat (t + 4)" by (rule mod_less)
  with t have "- 4 + int (constant_rng (nat (t + 4)) 0 mod 9) = t"
    by (simp add: constant_rng_def)
  then show "\<exists>g'. augment c window g' = Inr (transposed c t window, rng_tail g')"
    by (intro exI[of _ "constant_rng (nat (t + 4))"]) (simp add: augment_eq[OF assms])
qed



theorem augment_transposes_witness:
  "valid_constants example_constants \<and>
   augment example_constants [5, 18, 13] (constant_rng 5) = Inr ([6, 18, 14], constant_rng 5) \<and>
   transposed example_constants 1 [5, 18, 13] = [6, 18, 14] \<and>
   augment example_constants [5, 18, 13] (constant_rng 4) = Inr ([5, 18, 13], constant_rng 4)"
proof -
  note W = augment_transposes[OF example_valid, of "[5, 18, 13]"]
  have a: "augment example_constants [5, 18, 13] (constant_rng 5) = Inr ([6, 18, 14], constant_rng 5)"
    by (simp add: augment_def randint_def constant_rng_tail example_constants_def)
       (simp add: constant_rng_def)
  have b: "augment example_constants [5, 18, 13] (constant_rng 4) = Inr ([5, 18, 13], constant_rng 4)"
    by (simp add: augment_def randint_def constant_rng_tail example_constants_def)
       (simp add: constant_rng_def)
  have c: "transposed example_constants 1 [5, 18, 13] = [6, 18, 14]"
    by (simp add: transposed_def example_simps)
  from W[of "constant_rng 5", THEN conjunct2, rule_format, of 1]
  obtain g' where "augment example_constants [5, 18, 13] g' =
      Inr (transposed example_constants 1 [5, 18, 13], rng_tail g')"
    by auto
  with a b c example_valid show ?thesis by simp
qed


text \<open>
  Claim C9. Building a sampler over a split with no sequence fails when the sampler is
  built, before any sample is drawn, but the error raised is a \<^verbatim>\<open>TypeError\<close>: the code
  raises the string \<^verbatim>\<open>'Insufficient training data.'\<close>, not an exception that names the
  insufficient data. Over a split with a sequence the sampling function is returned.
\<close>

theorem sampler_empty_split_type_error:
  "sampler example_constants ([], [], []) = Inl TypeError \<and>
   sampler example_constants example_data = Inr (sample example_constants example_data)"
  by (simp add: sampler_def example_data_def)

lemma sampler_eq:
  "sampler c data' = (if fst data' = [] then Inl TypeError else Inr (sample c data'))"
  by (cases data') (simp add: sampler_def)

lemma random_subseq_eq:
  "random_subseq c s L g =
     (if length s \<le> L then Inl ValueError
      else Inr ((generator c s L (g 0 mod (length s - L)), g 0 mod (length s - L),
                 g 0 mod (length s - L) + L), rng_tail g))"
  by (auto simp: random_subseq_def randint_def nat_diff_distrib' nat_add_distrib
      intro!: arg_cong[of _ _ "\<lambda>n. g 0 mod n"])

text \<open>
  Claim C4. The start index is drawn from \<open>[0, len(sequence) - 1 - seq_len]\<close>. With
  \<open>seq_len = len(sequence)\<close> that range is empty and \<^verbatim>\<open>random_subseq\<close> raises
  \<^verbatim>\<open>ValueError\<close>, whatever the random source; with \<open>seq_len = len(sequence) - 1\<close> the
  start is always 0 and never \<open>len(sequence) - seq_len = 1\<close>.
\<close>

theorem random_subseq_whole_sequence_fails:
  "random_subseq example_constants [5, 18, 13] 3 g = Inl ValueError \<and>
   random_subseq example_constants [5, 18, 13, 7] 3 g =
     Inr ((generator example_constants [5, 18, 13, 7] 3 0, 0, 3), rng_tail g)"
  by (simp add: random_subseq_eq)

section \<open>The progress encoder\<close>

lemma set_column_length: "length (set_column p a e c) = length p"
  by (simp add: set_column_def Let_def)

lemma set_column_nth:
  assumes "i < length p"
  shows "set_column p a e c ! i =
     (if slice_index (length p) a \<le> i \<and>
         i < (case e of None \<Rightarrow> length p | Some e' \<Rightarrow> slice_index (length p) e')
      then (p ! i)[c := 1] else p ! i)"
  using assms by (simp add: set_column_def Let_def nth_enumerate_eq)

lemma slice_index_nat: "slice_index n (int x) = min x n"
  by (simp add: slice_index_def)

text \<open>The rows after the loop over the first \<open>m\<close> categories.\<close>

lemma fold_rows:
  assumes "m \<le> C" "C * st \<le> n"
  defines "rows \<equiv> fold (\<lambda>c p. set_column p (int c * int st) (Some (int c * int st + int st)) c)
                     [0..<m] (replicate n (replicate C 0))"
  shows "length rows = n \<and>
         (\<forall>i<n. rows ! i = (if i < m * st then one_hot C (i div st) else replicate C 0))"
  using assms(1) unfolding rows_def
proof (induction m)
  case 0
  then show ?case by simp
next
  case (Suc m)
  let ?p = "fold (\<lambda>c p. set_column p (int c * int st) (Some (int c * int st + int st)) c)
                     [0..<m] (replicate n (replicate C 0))"
  from Suc have IH: "length ?p = n"
    "\<And>i. i < n \<Longrightarrow> ?p ! i = (if i < m * st then one_hot C (i div st) else replicate C 0)"
    by simp_all
  have "Suc m * st \<le> C * st" using Suc.prems by (intro mult_le_mono1)
  with assms(2) have b: "m * st \<le> n" "m * st + st \<le> n" by simp_all
  have lo: "slice_index n (int m * int st) = m * st"
    using b slice_index_nat[of n "m * st"] by simp
  have hi: "slice_index n (int m * int st + int st) = m * st + st"
    using b slice_index_nat[of n "m * st + st"] by simp
  have step: "fold (\<lambda>c p. set_column p (int c * int st) (Some (int c * int st + int st)) c)
               [0..<Suc m] (replicate n (replicate C 0)) =
             set_column ?p (int m * int st) (Some (int m * int st + int st)) m"
    by simp
  show ?case
  proof (intro conjI allI impI)
    show "length (fold (\<lambda>c p. set_column p (int c * int st) (Some (int c * int st + int st)) c)
               [0..<Suc m] (replicate n (replicate C 0))) = n"
      unfolding step by (simp add: set_column_length IH(1))
  next
    fix i assume i: "i < n"
    have "set_column ?p (int m * int st) (Some (int m * int st + int st)) m ! i =
        (if m * st \<le> i \<and> i < m * st + st then (?p ! i)[m := 1] else ?p ! i)"
      using i by (simp add: set_column_nth IH(1) lo hi)
    also have "\<dots> = (if i < Suc m * st then one_hot C (i div st) else replicate C 0)"
    proof (cases "m * st \<le> i \<and> i < m * st + st")
      case True
      then have "0 < st" by (cases st) auto
      from True have "i div st = m"
        by (intro div_nat_eqI) (simp_all add: mult.commute)
      with True show ?thesis by (simp add: IH(2)[OF i] one_hot_def)
    next
      case False
      then show ?thesis using IH(2)[OF i] by auto
    qed
    finally show "fold (\<lambda>c p. set_column p (int c * int st) (Some (int c * int st + int st)) c)
               [0..<Suc m] (replicate n (replicate C 0)) ! i =
        (if i < Suc m * st then one_hot C (i div st) else replicate C 0)"
      unfolding step .
  qed
qed

lemma progress_rows_eq:
  assumes "0 < C"
  shows "length (progress_rows (int C) n) = n \<and>
     (\<forall>i<n. progress_rows (int C) n ! i =
        (if n mod C = 0 then (one_hot C (i div (n div C)))[C - 1 := 1]
         else one_hot C (if i < C * (n div C) then i div (n div C) else C - 1)))"
proof -
  define st where "st = n div C"
  define rows where "rows = fold (\<lambda>c p. set_column p (int c * int st) (Some (int c * int st + int st)) c)
                     [0..<C] (replicate n (replicate C 0))"
  have le: "C * st \<le> n" by (simp add: st_def)
  from fold_rows[OF le_refl le] have rows: "length rows = n"
    "\<And>i. i < n \<Longrightarrow> rows ! i = (if i < C * st then one_hot C (i div st) else replicate C 0)"
    by (simp_all add: rows_def mult.commute)
  have pr: "progress_rows (int C) n =
      set_column rows (- (int n mod int C)) None (C - 1)"
    using assms
    by (simp add: progress_rows_def Let_def rows_def st_def zdiv_int nat_diff_distrib')
  have n: "n = C * st + n mod C" by (simp add: st_def)
  have im: "int n mod int C = int (n mod C)" by (simp add: zmod_int)
  have lo: "slice_index n (- (int n mod int C)) = (if n mod C = 0 then 0 else C * st)"
  proof (cases "n mod C = 0")
    case True
    then show ?thesis unfolding im by (simp add: slice_index_def)
  next
    case False
    have "int n - int (n mod C) = int (C * st)" using n by linarith
    with False show ?thesis
      unfolding im by (simp add: slice_index_def del: of_nat_mult of_nat_mod)
  qed
  show ?thesis
  proof (intro conjI allI impI)
    show "length (progress_rows (int C) n) = n"
      by (simp add: pr set_column_length rows(1))
  next
    fix i assume i: "i < n"
    have "progress_rows (int C) n ! i =
        (if (if n mod C = 0 then 0 else C * st) \<le> i then (rows ! i)[C - 1 := 1] else rows ! i)"
      using i by (simp add: pr set_column_nth rows(1) lo)
    also have "\<dots> = (if n mod C = 0 then (one_hot C (i div st))[C - 1 := 1]
         else one_hot C (if i < C * st then i div st else C - 1))"
    proof (cases "n mod C = 0")
      case True
      with n i have "i < C * st" by simp
      with True show ?thesis by (simp add: rows(2)[OF i])
    next
      case False
      then show ?thesis by (simp add: rows(2)[OF i] one_hot_def)
    qed
    finally show "progress_rows (int C) n ! i =
        (if n mod C = 0 then (one_hot C (i div (n div C)))[C - 1 := 1]
         else one_hot C (if i < C * (n div C) then i div (n div C) else C - 1))"
      by (simp add: st_def)
  qed
qed


lemma concat_row:
  "\<forall>r\<in>set rows. length r = C \<Longrightarrow> i < length rows \<Longrightarrow>
     take C (drop (i * C) (concat rows)) = rows ! i"
proof (induction rows arbitrary: i)
  case Nil
  then show ?case by simp
next
  case (Cons r rows)
  show ?case
  proof (cases i)
    case 0
    with Cons.prems show ?thesis by simp
  next
    case (Suc j)
    with Cons.prems Cons.IH[of j] show ?thesis by simp
  qed
qed

lemma one_hot_split: "k < C \<Longrightarrow> one_hot C k = replicate k 0 @ 1 # replicate (C - Suc k) 0"
  by (simp add: one_hot_def upd_conv_take_nth_drop min_def)

lemma count_zeros: "count_list (replicate n (0::int)) 1 = 0"
  by (induction n) simp_all

lemma one_hot_count:
  "k < C \<Longrightarrow> length (one_hot C k) = C \<and> count_list (one_hot C k) 1 = 1 \<and> one_hot C k ! k = 1"
  by (simp add: one_hot_split count_zeros nth_append)

lemma one_hot_length: "length (one_hot C k) = C"
  by (simp add: one_hot_def)

lemma progress_tensor_rows:
  assumes "0 < C" "CATEGORY_LEVEL c = int C" "i < length seq"
  shows "\<exists>t. progress_tensor c seq = Inr t \<and> shape t = [length seq, C] \<and>
           length (elems t) = length seq * C \<and>
           tensor_row t i = progress_rows (int C) (length seq) ! i"
proof -
  let ?rows = "progress_rows (int C) (length seq)"
  note R = progress_rows_eq[OF assms(1), of "length seq"]
  have len: "length ?rows = length seq" using R by blast
  have each: "\<forall>r\<in>set ?rows. length r = C"
  proof
    fix r assume "r \<in> set ?rows"
    then obtain j where j: "j < length seq" "r = ?rows ! j"
      using len by (metis in_set_conv_nth)
    with R show "length r = C" by (simp add: one_hot_length)
  qed
  have "length (concat rows) = length rows * C" if "\<forall>r\<in>set rows. length r = C"
    for rows :: "int list list"
    using that by (induction rows) simp_all
  from this[OF each] have cl: "length (concat ?rows) = length seq * C" by (simp add: len)
  have "tensor_row (Tensor [length seq, C] (concat ?rows)) i = ?rows ! i"
    using concat_row[OF each, of i] assms(3) len by (simp add: tensor_row_def)
  with assms(1,2) cl show ?thesis by (simp add: progress_tensor_def)
qed


text \<open>
  Claim C1. On a composition whose length is an exact multiple of the category count the
  last assignment of \<^verbatim>\<open>progress_tensor\<close> has the slice \<^verbatim>\<open>[-0:]\<close>, the whole array: with
  three categories and six events every row has its last entry set, and the rows of the
  first two categories have two entries set.
\<close>

theorem progress_tensor_exact_multiple:
  "progress_tensor example_constants [5, 18, 13, 7, 18, 13] =
     Inr (Tensor [6, 3] [1, 0, 1, 1, 0, 1, 0, 1, 1, 0, 1, 1, 0, 0, 1, 0, 0, 1]) \<and>
   tensor_row (Tensor [6, 3] [1, 0, 1, 1, 0, 1, 0, 1, 1, 0, 1, 1, 0, 0, 1, 0, 0, 1]) 0 = [1, 0, 1]"
  by code_simp

text \<open>
  On a length that is an exact multiple of the category count, every row has the entry of
  its own category and the entry of the last category set.
\<close>

lemma progress_tensor_multiple_rows:
  assumes "0 < C" "CATEGORY_LEVEL c = int C" "length seq mod C = 0" "i < length seq"
  shows "\<exists>t. progress_tensor c seq = Inr t \<and>
           tensor_row t i = (one_hot C (i div (length seq div C)))[C - 1 := 1]"
proof -
  from progress_tensor_rows[OF assms(1,2,4)] obtain t where
    t: "progress_tensor c seq = Inr t"
       "tensor_row t i = progress_rows (int C) (length seq) ! i"
    by blast
  have "tensor_row t i = (one_hot C (i div (length seq div C)))[C - 1 := 1]"
    using progress_rows_eq[OF assms(1), of "length seq"] assms(3,4) t(2) by simp
  with t(1) show ?thesis by blast
qed

text \<open>
  On every other length the rows are one-hot: row \<open>i\<close> has the category \<open>i div step\<close> set
  while \<open>i\<close> is below \<open>C * step\<close>, and the last category in the remainder rows.
\<close>

lemma progress_tensor_one_hot:
  assumes "0 < C" "CATEGORY_LEVEL c = int C" "length seq mod C \<noteq> 0" "i < length seq"
  shows "\<exists>t k. progress_tensor c seq = Inr t \<and> shape t = [length seq, C] \<and>
           k < C \<and> k = (if i < C * (length seq div C) then i div (length seq div C) else C - 1) \<and>
           tensor_row t i = one_hot C k \<and> count_list (tensor_row t i) 1 = 1"
proof -
  let ?st = "length seq div C"
  let ?k = "if i < C * ?st then i div ?st else C - 1"
  from progress_tensor_rows[OF assms(1,2,4)] obtain t where
    t: "progress_tensor c seq = Inr t" "shape t = [length seq, C]"
       "tensor_row t i = progress_rows (int C) (length seq) ! i"
    by blast
  have k: "?k < C"
  proof (cases "i < C * ?st")
    case True
    then have "0 < ?st" by (cases ?st) auto
    with True have "i div ?st < C"
      by (simp add: less_mult_imp_div_less mult.commute)
    with True show ?thesis by simp
  next
    case False
    with assms(1) show ?thesis by simp
  qed
  have "tensor_row t i = one_hot C ?k"
    using progress_rows_eq[OF assms(1), of "length seq"] assms(3,4) t(3) by simp
  with t k one_hot_count[OF k] show ?thesis by (intro exI[of _ t] exI[of _ ?k]) simp
qed

lemma progress_tensor_one_hot_example:
  "(0::nat) < 3 \<and> CATEGORY_LEVEL example_constants = int 3 \<and>
   length [5, 18, 13, 7, 18, 13, 5, 18, 13, 7 :: int] mod 3 \<noteq> 0 \<and>
   progress_tensor example_constants [5, 18, 13, 7, 18, 13, 5, 18, 13, 7] =
     Inr (Tensor [10, 3]
       [1, 0, 0, 1, 0, 0, 1, 0, 0, 0, 1, 0, 0, 1, 0, 0, 1, 0, 0, 0, 1, 0, 0, 1, 0, 0, 1, 0, 0, 1]) \<and>
   tensor_row (Tensor [10, 3]
       [1, 0, 0, 1, 0, 0, 1, 0, 0, 0, 1, 0, 0, 1, 0, 0, 1, 0, 0, 0, 1, 0, 0, 1, 0, 0, 1, 0, 0, 1]) 9
     = one_hot 3 2"
proof -
  have h: "(0::nat) < 3" "CATEGORY_LEVEL example_constants = int 3"
    "length [5, 18, 13, 7, 18, 13, 5, 18, 13, 7 :: int] mod 3 \<noteq> 0"
    "9 < length [5, 18, 13, 7, 18, 13, 5, 18, 13, 7 :: int]"
    by (simp_all add: example_constants_def)
  have v: "progress_tensor example_constants [5, 18, 13, 7, 18, 13, 5, 18, 13, 7] =
     Inr (Tensor [10, 3]
       [1, 0, 0, 1, 0, 0, 1, 0, 0, 0, 1, 0, 0, 1, 0, 0, 1, 0, 0, 0, 1, 0, 0, 1, 0, 0, 1, 0, 0, 1])"
    by code_simp
  from progress_tensor_one_hot[OF h] obtain t k where
    "progress_tensor example_constants [5, 18, 13, 7, 18, 13, 5, 18, 13, 7] = Inr t"
    "k = (if 9 < 3 * (length [5, 18, 13, 7, 18, 13, 5, 18, 13, 7 :: int] div 3)
          then 9 div (length [5, 18, 13, 7, 18, 13, 5, 18, 13, 7 :: int] div 3) else 3 - 1)"
    "tensor_row t 9 = one_hot 3 k"
    by blast
  with v h show ?thesis by simp
qed

text \<open>
  \<^verbatim>\<open>process\<close> returns aligned data: one tag and one progress tensor of shape
  \<open>[len(seq), C]\<close> for every sequence.
\<close>

lemma map_err_total:
  "(\<And>x. x \<in> set xs \<Longrightarrow> f x = Inr (h x)) \<Longrightarrow> map_err f xs = Inr (map h xs)"
  by (induction xs) simp_all

lemma tags_length:
  "length (concat (map (\<lambda>(s, y). replicate (length y) (int s)) (enumerate k style_seqs))) =
   length (concat style_seqs)"
  by (induction style_seqs arbitrary: k) simp_all

lemma progress_tensor_wf:
  assumes "0 < C" "CATEGORY_LEVEL c = int C"
  shows "\<exists>t. progress_tensor c seq = Inr t \<and> shape t = [length seq, C] \<and> wf_tensor t"
proof -
  let ?rows = "progress_rows (int C) (length seq)"
  note R = progress_rows_eq[OF assms(1), of "length seq"]
  have len: "length ?rows = length seq" using R by blast
  have each: "\<forall>r\<in>set ?rows. length r = C"
  proof
    fix r assume "r \<in> set ?rows"
    then obtain j where j: "j < length seq" "r = ?rows ! j"
      using len by (metis in_set_conv_nth)
    with R show "length r = C" by (simp add: one_hot_length)
  qed
  have "length (concat rows) = length rows * C" if "\<forall>r\<in>set rows. length r = C"
    for rows :: "int list list"
    using that by (induction rows) simp_all
  from this[OF each] have "length (concat ?rows) = length seq * C" by (simp add: len)
  with assms show ?thesis by (simp add: progress_tensor_def wf_tensor_def)
qed

lemma process_aligned:
  assumes "0 < C" "CATEGORY_LEVEL c = int C"
  shows "\<exists>style_tags progresses.
           process c style_seqs = Inr (concat style_seqs, style_tags, progresses) \<and>
           aligned C (concat style_seqs, style_tags, progresses)"
proof -
  let ?seqs = "concat style_seqs"
  let ?tags = "concat (map (\<lambda>(s, y). replicate (length y) (int s)) (enumerate 0 style_seqs))"
  define h where "h = (\<lambda>s. projr (progress_tensor c s))"
  have h: "progress_tensor c s = Inr (h s) \<and> shape (h s) = [length s, C] \<and> wf_tensor (h s)" for s
    using progress_tensor_wf[OF assms, of s] by (auto simp: h_def)
  then have m: "map_err (progress_tensor c) ?seqs = Inr (map h ?seqs)"
    by (intro map_err_total) simp
  have p: "process c style_seqs = Inr (?seqs, ?tags, map h ?seqs)"
    by (simp add: process_def m Let_def)
  have "list_all (\<lambda>(s, p). shape p = [length s, C] \<and> wf_tensor p) (zip ?seqs (map h ?seqs))"
    using h by (simp add: list_all_length)
  then have "aligned C (?seqs, ?tags, map h ?seqs)"
    by (simp add: aligned_def tags_length)
  with p show ?thesis by blast
qed


section \<open>The validation split\<close>

lemma shuffle_loop_mset:
  "k < length x \<Longrightarrow> mset (fst (shuffle_loop k x g)) = mset x"
proof (induction k arbitrary: x g)
  case 0
  then show ?case by simp
next
  case (Suc k)
  let ?j = "g 0 mod (Suc k + 1)"
  let ?x = "x[Suc k := x ! ?j, ?j := x ! Suc k]"
  have j: "?j < length x"
  proof -
    have "?j < Suc k + 1" by simp
    with Suc.prems show ?thesis by arith
  qed
  have "mset ?x = mset x"
    using Suc.prems j by (simp add: mset_swap)
  moreover have "mset (fst (shuffle_loop k ?x (rng_tail g))) = mset ?x"
    using Suc.prems by (intro Suc.IH) simp
  ultimately show ?case by (simp add: Let_def)
qed

lemma shuffle_mset: "mset (fst (shuffle x g)) = mset x"
proof (cases x)
  case Nil
  then show ?thesis by (simp add: shuffle_def)
next
  case (Cons a xs)
  then show ?thesis by (simp add: shuffle_def shuffle_loop_mset)
qed

lemma shuffle_range:
  "length (fst (shuffle [0..<m] g)) = m"
  "set (fst (shuffle [0..<m] g)) = {0..<m}"
  "distinct (fst (shuffle [0..<m] g))"
proof -
  have m: "mset (fst (shuffle [0..<m] g)) = mset [0..<m]" by (rule shuffle_mset)
  from mset_eq_length[OF m] show "length (fst (shuffle [0..<m] g)) = m"
    by simp
  from mset_eq_setD[OF m] show "set (fst (shuffle [0..<m] g)) = {0..<m}"
    by simp
  from mset_eq_imp_distinct_iff[OF m] show "distinct (fst (shuffle [0..<m] g))"
    by simp
qed


lemma slice_index_neg:
  "1 \<le> k \<Longrightarrow> k \<le> int n \<Longrightarrow> slice_index n (- k) = n - nat k"
  by (simp add: slice_index_def nat_diff_distrib')

lemma split_indicies_unfold:
  "split_indicies m split g =
     (let r = fst (shuffle [0..<m] g) in
      bind_err (num_val_of m split) (\<lambda>k.
        if int (length (slice_from r (- k))) \<noteq> k then Inl AssertionError
        else if int (length (slice_upto r (- k))) \<noteq> int (length r) - k then Inl AssertionError
        else Inr ((slice_upto r (- k), slice_from r (- k)), snd (shuffle [0..<m] g))))"
proof -
  obtain r g' where sh: "shuffle [0..<m] g = (r, g')"
    by (cases "shuffle [0..<m] g")
  have "length r = m" using shuffle_range(1)[of m g] sh by simp
  then show ?thesis
    by (cases "num_val_of m split") (simp_all add: split_indicies_def sh Let_def)
qed

lemma split_slices:
  fixes r :: "'a list"
  shows "(let k = k in
      if int (length (slice_from r (- k))) \<noteq> k then Inl AssertionError
      else if int (length (slice_upto r (- k))) \<noteq> int (length r) - k then Inl AssertionError
      else Inr ((slice_upto r (- k), slice_from r (- k)), g')) =
     (if (1 \<le> k \<and> k \<le> int (length r)) \<or> (r = [] \<and> k = 0)
      then Inr ((take (length r - nat k) r, drop (length r - nat k) r), g')
      else Inl AssertionError)"
proof -
  consider (ok) "1 \<le> k" "k \<le> int (length r)" | (big) "int (length r) < k"
    | (zero) "k = 0" | (neg) "k < 0"
    by linarith
  then show ?thesis
  proof cases
    case ok
    then have "slice_index (length r) (- k) = length r - nat k"
      by (rule slice_index_neg)
    with ok show ?thesis
      by (simp add: slice_upto_def slice_from_def)
  next
    case big
    then show ?thesis
      by (simp add: slice_upto_def slice_from_def slice_index_def)
  next
    case zero
    then show ?thesis
      by (auto simp add: slice_upto_def slice_from_def slice_index_def)
  next
    case neg
    then show ?thesis
      by (simp add: slice_upto_def slice_from_def slice_index_def)
  qed
qed

lemma split_indicies_error:
  "num_val_of m split = Inl e \<Longrightarrow> split_indicies m split g = Inl e"
  by (simp add: split_indicies_unfold)

lemma split_indicies_eq:
  assumes "num_val_of m split = Inr k"
  shows "split_indicies m split g =
     (if (1 \<le> k \<and> k \<le> int m) \<or> (m = 0 \<and> k = 0)
      then Inr ((take (m - nat k) (fst (shuffle [0..<m] g)),
                 drop (m - nat k) (fst (shuffle [0..<m] g))),
                snd (shuffle [0..<m] g))
      else Inl AssertionError)"
proof -
  define r where "r = fst (shuffle [0..<m] g)"
  have len: "length r = m" unfolding r_def by (rule shuffle_range(1))
  have "split_indicies m split g =
     (let k = k in
      if int (length (slice_from r (- k))) \<noteq> k then Inl AssertionError
      else if int (length (slice_upto r (- k))) \<noteq> int (length r) - k then Inl AssertionError
      else Inr ((slice_upto r (- k), slice_from r (- k)), snd (shuffle [0..<m] g)))"
    unfolding r_def by (simp add: split_indicies_unfold assms Let_def)
  also have "\<dots> = (if (1 \<le> k \<and> k \<le> int (length r)) \<or> (r = [] \<and> k = 0)
      then Inr ((take (length r - nat k) r, drop (length r - nat k) r), snd (shuffle [0..<m] g))
      else Inl AssertionError)"
    by (rule split_slices)
  also have "\<dots> = (if (1 \<le> k \<and> k \<le> int m) \<or> (m = 0 \<and> k = 0)
      then Inr ((take (m - nat k) r, drop (m - nat k) r), snd (shuffle [0..<m] g))
      else Inl AssertionError)"
    using len by auto
  finally show ?thesis unfolding r_def .
qed

lemma index_py_nat: "i < length xs \<Longrightarrow> index_py xs (int i) = Inr (xs ! i)"
  by (simp add: index_py_def)

lemma select_ok: "\<forall>i\<in>set indices. i < length xs \<Longrightarrow> select xs indices = Inr (map (\<lambda>i. xs ! i) indices)"
  unfolding select_def by (induction indices) (simp_all add: index_py_nat)


lemma validation_split_eq:
  assumes "length style_tags = length seqs" "length progresses = length seqs"
  shows "validation_split (seqs, style_tags, progresses) split g =
     (case split_indicies (length seqs) split g of
        Inl e \<Rightarrow> Inl e
      | Inr ((train, val), g') \<Rightarrow>
          Inr (((map (\<lambda>i. seqs ! i) train, map (\<lambda>i. style_tags ! i) train,
                 map (\<lambda>i. progresses ! i) train),
                (map (\<lambda>i. seqs ! i) val, map (\<lambda>i. style_tags ! i) val,
                 map (\<lambda>i. progresses ! i) val)), g'))"
proof (cases "split_indicies (length seqs) split g")
  case (Inl e)
  then show ?thesis by (simp add: validation_split_def)
next
  case (Inr x)
  obtain train val g' where x: "x = ((train, val), g')" by (cases x) auto
  let ?r = "fst (shuffle [0..<length seqs] g)"
  obtain k where k: "num_val_of (length seqs) split = Inr k"
    using Inr split_indicies_error[of "length seqs" split _ g]
    by (cases "num_val_of (length seqs) split") auto
  from Inr x have "train = take (length seqs - nat k) ?r"
    and "val = drop (length seqs - nat k) ?r"
    by (auto simp: split_indicies_eq[OF k] split: if_splits)
  then have "set train \<subseteq> set ?r" "set val \<subseteq> set ?r"
    by (auto dest: in_set_takeD in_set_dropD)
  then have b: "\<forall>i\<in>set train. i < length seqs" "\<forall>i\<in>set val. i < length seqs"
    using shuffle_range(2)[of "length seqs" g] by auto
  have "select seqs train = Inr (map (\<lambda>i. seqs ! i) train)"
    "select seqs val = Inr (map (\<lambda>i. seqs ! i) val)"
    "select style_tags train = Inr (map (\<lambda>i. style_tags ! i) train)"
    "select style_tags val = Inr (map (\<lambda>i. style_tags ! i) val)"
    "select progresses train = Inr (map (\<lambda>i. progresses ! i) train)"
    "select progresses val = Inr (map (\<lambda>i. progresses ! i) val)"
    using b assms by (simp_all add: select_ok)
  then show ?thesis
    by (simp add: validation_split_def Inr x)
qed

text \<open>
  What \<^verbatim>\<open>validation_split\<close> returns on aligned data when \<^verbatim>\<open>num_val\<close> is within
  \<open>[1, M]\<close>, or the corpus is empty.
\<close>

lemma validation_split_returns:
  assumes "length style_tags = length seqs" "length progresses = length seqs"
    and "num_val_of (length seqs) split = Inr k"
    and "(1 \<le> k \<and> k \<le> int (length seqs)) \<or> (length seqs = 0 \<and> k = 0)"
  shows "\<exists>train val g'.
     split_indicies (length seqs) split g = Inr ((train, val), g') \<and>
     int (length val) = k \<and>
     length train = length seqs - length val \<and>
     set train \<inter> set val = {} \<and> set train \<union> set val = {0..<length seqs} \<and>
     distinct (train @ val) \<and>
     validation_split (seqs, style_tags, progresses) split g =
       Inr (((map (\<lambda>i. seqs ! i) train, map (\<lambda>i. style_tags ! i) train,
              map (\<lambda>i. progresses ! i) train),
             (map (\<lambda>i. seqs ! i) val, map (\<lambda>i. style_tags ! i) val,
              map (\<lambda>i. progresses ! i) val)), g')"
proof -
  let ?m = "length seqs"
  let ?r = "fst (shuffle [0..<?m] g)"
  let ?train = "take (?m - nat k) ?r"
  let ?val = "drop (?m - nat k) ?r"
  have si: "split_indicies ?m split g = Inr ((?train, ?val), snd (shuffle [0..<?m] g))"
    using assms(4) by (simp add: split_indicies_eq[OF assms(3)])
  have len: "length ?r = ?m" by (rule shuffle_range(1))
  have app: "?train @ ?val = ?r" by simp
  have d: "distinct (?train @ ?val)"
    unfolding app by (rule shuffle_range(3))
  have u: "set ?train \<union> set ?val = {0..<?m}"
    using shuffle_range(2)[of ?m g] set_append[of ?train ?val] unfolding app by simp
  have lv: "int (length ?val) = k"
    using assms(4) len by auto
  have lt: "length ?train = ?m - length ?val"
    using len by simp
  have i: "set ?train \<inter> set ?val = {}"
    using shuffle_range(3)[of ?m g] by (intro set_take_disj_set_drop_if_distinct) simp_all
  have vs: "validation_split (seqs, style_tags, progresses) split g =
       Inr (((map (\<lambda>i. seqs ! i) ?train, map (\<lambda>i. style_tags ! i) ?train,
              map (\<lambda>i. progresses ! i) ?train),
             (map (\<lambda>i. seqs ! i) ?val, map (\<lambda>i. style_tags ! i) ?val,
              map (\<lambda>i. progresses ! i) ?val)), snd (shuffle [0..<?m] g))"
    unfolding validation_split_eq[OF assms(1,2), of split g] si by simp
  from si lv lt i u d vs show ?thesis by blast
qed

text \<open>The two triples that \<^verbatim>\<open>validation_split\<close> returns are aligned when the data are.\<close>

lemma aligned_select:
  assumes "aligned C (seqs, style_tags, progresses)" "\<forall>i\<in>set idx. i < length seqs"
  shows "aligned C (map (\<lambda>i. seqs ! i) idx, map (\<lambda>i. style_tags ! i) idx,
                   map (\<lambda>i. progresses ! i) idx)"
proof -
  from assms(1) have l: "length progresses = length seqs"
    and a: "\<And>i. i < length seqs \<Longrightarrow>
          shape (progresses ! i) = [length (seqs ! i), C] \<and> wf_tensor (progresses ! i)"
    by (auto simp: aligned_def list_all_length)
  show ?thesis
    using assms(2) a by (simp add: aligned_def list_all_length)
qed

lemma validation_split_aligned:
  assumes "aligned C data'"
    and "validation_split data' split g = Inr ((train, val), g')"
  shows "aligned C train \<and> aligned C val"
proof -
  obtain seqs style_tags progresses where d: "data' = (seqs, style_tags, progresses)"
    by (cases data') auto
  from assms(1) have l: "length style_tags = length seqs" "length progresses = length seqs"
    by (simp_all add: aligned_def d)
  let ?r = "fst (shuffle [0..<length seqs] g)"
  from assms(2) obtain ti vi where
    si: "split_indicies (length seqs) split g = Inr ((ti, vi), g')"
    and tr: "train = (map (\<lambda>i. seqs ! i) ti, map (\<lambda>i. style_tags ! i) ti,
                     map (\<lambda>i. progresses ! i) ti)"
    and va: "val = (map (\<lambda>i. seqs ! i) vi, map (\<lambda>i. style_tags ! i) vi,
                   map (\<lambda>i. progresses ! i) vi)"
    unfolding d validation_split_eq[OF l]
    by (auto split: sum.splits)
  obtain k where k: "num_val_of (length seqs) split = Inr k"
    using si split_indicies_error[of "length seqs" split _ g]
    by (cases "num_val_of (length seqs) split") auto
  from si have "set ti \<subseteq> set ?r" "set vi \<subseteq> set ?r"
    by (auto simp: split_indicies_eq[OF k] split: if_splits dest: in_set_takeD in_set_dropD)
  then have "\<forall>i\<in>set ti. i < length seqs" "\<forall>i\<in>set vi. i < length seqs"
    using shuffle_range(2)[of "length seqs" g] by auto
  with assms(1) show ?thesis
    unfolding d tr va by (intro conjI aligned_select) simp_all
qed

subsection \<open>The float product in \<^verbatim>\<open>num_val\<close>\<close>

lemma pow2_powi: "pow2 e = 2 powi e"
  by (simp add: pow2_def power_int_def inverse_eq_divide power_one_over)

lemma pow2_pos: "0 < pow2 e"
  by (simp add: pow2_powi)

lemma pow2_mono: "a \<le> b \<Longrightarrow> pow2 a \<le> pow2 b"
  unfolding pow2_powi by (rule power_int_increasing) simp_all

lemma pow2_le_imp_le: "pow2 a \<le> pow2 b \<Longrightarrow> 0 \<le> b \<Longrightarrow> a \<le> b"
  unfolding pow2_powi by (rule power_int_le_imp_le_exp[of "2::rat"]) simp_all

lemma pow2_add: "pow2 (a + b) = pow2 a * pow2 b"
  unfolding pow2_powi by (rule power_int_add) simp

text \<open>\<open>floor_log2\<close> is the binary exponent: \<open>2^E \<le> x < 2^(E+1)\<close>.\<close>

lemma floor_log2_le:
  assumes "0 < x"
  shows "pow2 (floor_log2 x) \<le> x"
proof (cases "1 \<le> x")
  case True
  then have f: "0 < \<lfloor>x\<rfloor>" by simp
  then have b: "1 \<le> bitlen \<lfloor>x\<rfloor>" by (simp add: bitlen_ge_iff_power)
  from bitlen_bounds[OF f] have "2 ^ nat (bitlen \<lfloor>x\<rfloor> - 1) \<le> \<lfloor>x\<rfloor>" by simp
  then have "(of_int (2 ^ nat (bitlen \<lfloor>x\<rfloor> - 1)) :: rat) \<le> of_int \<lfloor>x\<rfloor>"
    by (simp only: of_int_le_iff)
  also have "\<dots> \<le> x" by simp
  finally have "(2 :: rat) ^ nat (bitlen \<lfloor>x\<rfloor> - 1) \<le> x" by simp
  with True b show ?thesis by (simp add: floor_log2_def pow2_def)
next
  case False
  let ?c = "\<lceil>1 / x\<rceil> - 1"
  from False assms have "1 < 1 / x" by simp
  then have c: "0 < ?c" by (simp add: less_ceiling_iff)
  from bitlen_bounds[OF c] have "?c < 2 ^ nat (bitlen ?c)" by simp
  then have "\<lceil>1 / x\<rceil> \<le> 2 ^ nat (bitlen ?c)" by simp
  then have "1 / x \<le> of_int (2 ^ nat (bitlen ?c))" by (simp only: ceiling_le_iff)
  then have "1 / x \<le> 2 ^ nat (bitlen ?c)" by simp
  with assms have "1 / 2 ^ nat (bitlen ?c) \<le> x"
    by (simp add: field_simps)
  moreover have "0 \<le> bitlen ?c" by (rule bitlen_nonneg)
  ultimately show ?thesis using False
    by (auto simp add: floor_log2_def pow2_def)
qed

lemma floor_log2_less:
  assumes "0 < x"
  shows "x < pow2 (floor_log2 x + 1)"
proof (cases "1 \<le> x")
  case True
  then have f: "0 < \<lfloor>x\<rfloor>" by simp
  then have b: "1 \<le> bitlen \<lfloor>x\<rfloor>" by (simp add: bitlen_ge_iff_power)
  from bitlen_bounds[OF f] have "\<lfloor>x\<rfloor> + 1 \<le> 2 ^ nat (bitlen \<lfloor>x\<rfloor>)" by simp
  then have "(of_int (\<lfloor>x\<rfloor> + 1) :: rat) \<le> of_int (2 ^ nat (bitlen \<lfloor>x\<rfloor>))"
    by (simp only: of_int_le_iff)
  moreover have "x < of_int (\<lfloor>x\<rfloor> + 1)" using floor_correct[of x] by simp
  ultimately have "x < 2 ^ nat (bitlen \<lfloor>x\<rfloor>)" by simp
  with True b show ?thesis by (simp add: floor_log2_def pow2_def)
next
  case False
  let ?c = "\<lceil>1 / x\<rceil> - 1"
  from False assms have "1 < 1 / x" by simp
  then have c: "0 < ?c" by (simp add: less_ceiling_iff)
  then have b: "1 \<le> bitlen ?c" by (simp add: bitlen_ge_iff_power)
  from bitlen_bounds[OF c] have "2 ^ nat (bitlen ?c - 1) \<le> ?c" by simp
  then have "(of_int (2 ^ nat (bitlen ?c - 1)) :: rat) \<le> of_int ?c"
    by (simp only: of_int_le_iff)
  moreover have "of_int ?c < 1 / x" using ceiling_correct[of "1 / x"] by simp
  ultimately have "2 ^ nat (bitlen ?c - 1) < 1 / x" by simp
  with assms have lt: "x < 1 / 2 ^ nat (bitlen ?c - 1)"
    by (simp add: field_simps)
  have "floor_log2 x + 1 = - (bitlen ?c - 1)"
    using False by (simp add: floor_log2_def)
  then have "pow2 (floor_log2 x + 1) = 1 / pow2 (bitlen ?c - 1)"
    by (simp only: pow2_powi power_int_minus_divide)
  also have "pow2 (bitlen ?c - 1) = 2 ^ nat (bitlen ?c - 1)"
    using b by (simp add: pow2_def)
  finally show ?thesis using lt by simp
qed

lemma round_half_even_of_int: "round_half_even (of_int z) = z"
  by (simp add: round_half_even_def)

lemma round_half_even_ge: "of_int z \<le> q \<Longrightarrow> z \<le> round_half_even q"
proof -
  assume "of_int z \<le> q"
  then have "z \<le> \<lfloor>q\<rfloor>" by (simp add: le_floor_iff)
  then show ?thesis by (simp add: round_half_even_def Let_def)
qed

lemma round_half_even_le: "q \<le> of_int z \<Longrightarrow> round_half_even q \<le> z"
proof -
  assume a: "q \<le> of_int z"
  show ?thesis
  proof (cases "q = of_int z")
    case True
    then show ?thesis by (simp add: round_half_even_of_int)
  next
    case False
    with a have "q < of_int z" by simp
    then have "\<lfloor>q\<rfloor> < z" by (simp add: floor_less_iff)
    then show ?thesis by (simp add: round_half_even_def Let_def)
  qed
qed


text \<open>
  Rounding a value between the least positive float and an integer \<open>n \<le> 2^53\<close>: the result
  is finite, positive and at most \<open>n\<close>, and it is \<open>n\<close> itself when the value is \<open>n\<close>.
\<close>

lemma round_double_bounds:
  assumes lo: "pow2 (- 1074) \<le> p" and hi: "p \<le> of_nat n" and n: "n \<le> 2 ^ 53"
  shows "\<exists>r. round_double p = Finite r \<and> 0 < r \<and> r \<le> of_nat n \<and>
             (p = of_nat n \<longrightarrow> r = of_nat n)"
proof -
  have p: "0 < p" using lo pow2_pos[of "- 1074"] by simp
  define E where "E = floor_log2 \<bar>p\<bar>"
  define e where "e = max (E - 52) (- 1074)"
  define m where "m = round_half_even (p / pow2 e)"
  have nr: "(of_nat n :: rat) \<le> pow2 53"
  proof -
    have "(of_nat n :: rat) \<le> of_nat (2 ^ 53)" using n by (simp only: of_nat_le_iff)
    then show ?thesis by (simp add: pow2_def)
  qed
  have El: "pow2 E \<le> p" using floor_log2_le[OF p] p by (simp add: E_def)
  then have "pow2 E \<le> pow2 53" using hi nr by simp
  then have E53: "E \<le> 53" by (rule pow2_le_imp_le) simp
  have e1: "e \<le> 1" using E53 by (simp add: e_def)
  have el: "pow2 e \<le> p"
  proof (cases "E - 52 \<le> - 1074")
    case True
    then show ?thesis using lo by (simp add: e_def max_def)
  next
    case False
    then have "e = E - 52" by (simp add: e_def max_def)
    moreover have "pow2 (E - 52) \<le> pow2 E" by (rule pow2_mono) simp
    ultimately show ?thesis using El by simp
  qed
  have q1: "of_int 1 \<le> p / pow2 e" using el pow2_pos[of e] by (simp add: field_simps)
  have m1: "1 \<le> m" unfolding m_def by (rule round_half_even_ge[OF q1])
  \<comment> \<open>\<open>n\<close> is a multiple of \<open>2^e\<close>\<close>
  obtain N :: int where N: "of_int N = (of_nat n :: rat) / pow2 e"
  proof (cases "e \<le> 0")
    case True
    have "of_int (int n * 2 ^ nat (- e)) = (of_nat n :: rat) / pow2 e"
      using True by (cases "e = 0") (simp_all add: pow2_def)
    then show ?thesis by (rule that)
  next
    case False
    with e1 have e: "e = 1" by simp
    then have "E = 53" using E53 unfolding e_def max_def by (simp split: if_splits)
    with El hi nr have "of_nat n = pow2 53" by simp
    then have "of_int (2 ^ 52) = (of_nat n :: rat) / pow2 e"
      by (simp add: e pow2_def)
    then show ?thesis by (rule that)
  qed
  have "p / pow2 e \<le> of_int N"
    using hi pow2_pos[of e] by (simp add: N divide_right_mono)
  then have mN: "m \<le> N" unfolding m_def by (rule round_half_even_le)
  have "(of_int m :: rat) \<le> of_int N" using mN by (simp only: of_int_le_iff)
  then have "of_int m * pow2 e \<le> of_int N * pow2 e"
    using pow2_pos[of e] by (simp add: mult_right_mono)
  also have "of_int N * pow2 e = of_nat n" using pow2_pos[of e] by (simp add: N)
  finally have rn: "of_int m * pow2 e \<le> (of_nat n :: rat)" .
  have rp: "0 < of_int m * pow2 e" using m1 pow2_pos[of e] by simp
  have req: "of_int m * pow2 e = of_nat n" if "p = of_nat n"
  proof -
    from that have "p / pow2 e = of_int N" by (simp add: N)
    then have "m = N" by (simp add: m_def round_half_even_of_int)
    then show ?thesis using pow2_pos[of e] by (simp add: N)
  qed
  have no: "\<not> 1024 < e + bitlen \<bar>m\<bar>"
  proof
    assume big: "1024 < e + bitlen \<bar>m\<bar>"
    from m1 have mp: "0 < m" "\<bar>m\<bar> = m" by simp_all
    define b where "b = bitlen m"
    have b1: "1 \<le> b" using mp(1) by (simp add: b_def bitlen_ge_iff_power)
    from bitlen_bounds[OF mp(1)] have "2 ^ nat (b - 1) \<le> m" by (simp add: b_def)
    then have "(of_int (2 ^ nat (b - 1)) :: rat) \<le> of_int m" by (simp only: of_int_le_iff)
    then have "pow2 (b - 1) \<le> of_int m" using b1 by (simp add: pow2_def)
    then have "pow2 (b - 1) * pow2 e \<le> of_int m * pow2 e"
      using pow2_pos[of e] by (simp add: mult_right_mono)
    then have "pow2 (b - 1 + e) \<le> of_int m * pow2 e" by (simp add: pow2_add)
    moreover have "pow2 54 \<le> pow2 (b - 1 + e)"
      using big mp(2) by (intro pow2_mono) (simp add: b_def)
    ultimately have "pow2 54 \<le> pow2 53" using rn nr by simp
    then have "(54 :: int) \<le> 53" by (rule pow2_le_imp_le) simp
    then show False by simp
  qed
  have "round_double p = Finite (of_int m * pow2 e)"
    using p no unfolding m_def e_def E_def by (simp add: round_double_def Let_def)
  with rp rn req show ?thesis by blast
qed

lemma int_times_float_finite:
  assumes "pow2 (- 1074) \<le> x" "x \<le> 1" "n \<le> 2 ^ 53"
  shows "\<exists>r. int_times_float (int n) (Finite x) = Inr (Finite r) \<and>
             (n = 0 \<longrightarrow> r = 0) \<and> (0 < n \<longrightarrow> 0 < r \<and> r \<le> of_nat n)"
proof (cases "n = 0")
  case True
  then show ?thesis by (simp add: int_times_float_def round_double_def)
next
  case False
  have x: "0 < x" using assms(1) pow2_pos[of "- 1074"] by simp
  have one: "pow2 (- 1074) \<le> 1"
    using pow2_mono[of "- 1074" 0] by (simp add: pow2_def)
  have n1: "(1 :: rat) \<le> of_nat n" using False by simp
  have "pow2 (- 1074) \<le> (of_nat n :: rat)" using one n1 by simp
  from round_double_bounds[OF this order_refl assms(3)]
  have fl: "round_double (of_nat n) = Finite (of_nat n)" by auto
  have lo: "pow2 (- 1074) \<le> of_nat n * x"
  proof -
    have "x \<le> of_nat n * x" using n1 x by (simp add: mult_le_cancel_right1)
    with assms(1) show ?thesis by simp
  qed
  have hi: "of_nat n * x \<le> of_nat n"
    using assms(2) by (simp add: mult_left_le)
  from round_double_bounds[OF lo hi assms(3)] obtain r where
    "round_double (of_nat n * x) = Finite r" "0 < r" "r \<le> of_nat n"
    by blast
  with fl False show ?thesis by (simp add: int_times_float_def)
qed

text \<open>
  For a fraction \<open>f\<close> with \<open>0 < f \<le> 1\<close> (a positive float is at least \<open>2^(-1074)\<close>) and a
  corpus of at most \<open>2^53\<close> triples, \<^verbatim>\<open>num_val\<close> lies in \<open>[1, M]\<close>, and it is 0 on the empty
  corpus.
\<close>

lemma num_val_in_range:
  assumes "pow2 (- 1074) \<le> x" "x \<le> 1" "n \<le> 2 ^ 53"
  shows "\<exists>k. num_val_of n (Finite x) = Inr k \<and>
             ((1 \<le> k \<and> k \<le> int n) \<or> (n = 0 \<and> k = 0))"
proof -
  from int_times_float_finite[OF assms] obtain r where
    r: "int_times_float (int n) (Finite x) = Inr (Finite r)"
       "n = 0 \<longrightarrow> r = 0" "0 < n \<longrightarrow> 0 < r \<and> r \<le> of_nat n"
    by blast
  have k: "num_val_of n (Finite x) = Inr \<lceil>r\<rceil>"
    by (simp add: num_val_of_def r(1) math_ceil_def)
  show ?thesis
  proof (cases "n = 0")
    case True
    with r(2) k show ?thesis by simp
  next
    case False
    with r(3) have "0 < r" "r \<le> of_int (int n)" by simp_all
    then have "1 \<le> \<lceil>r\<rceil>" "\<lceil>r\<rceil> \<le> int n"
      by (simp_all add: ceiling_le_iff del: of_int_of_nat_eq)
    with k show ?thesis by blast
  qed
qed

subsection \<open>The split\<close>

text \<open>
  Claim C5, as amended. For a corpus of \<open>M \<le> 2^53\<close> aligned triples and a float fraction
  \<open>0 < f \<le> 1\<close> the split returns: the validation indices are \<^verbatim>\<open>num_val\<close> many, where
  \<^verbatim>\<open>num_val\<close> is \<^verbatim>\<open>int(math.ceil(M * f))\<close> with the product rounded to a float before
  the ceiling is taken, the training indices are the other \<open>M - |val|\<close>, the two index
  lists are disjoint and together hold every index of \<open>[0, M)\<close> exactly once, and the two
  triples returned are the selections by these indices.
\<close>

theorem validation_split_partition:
  assumes "length style_tags = length seqs" "length progresses = length seqs"
    and "length seqs \<le> 2 ^ 53" and "pow2 (- 1074) \<le> f" "f \<le> 1"
  shows "\<exists>k train val g'.
     num_val_of (length seqs) (Finite f) = Inr k \<and>
     split_indicies (length seqs) (Finite f) g = Inr ((train, val), g') \<and>
     int (length val) = k \<and>
     length train = length seqs - length val \<and>
     set train \<inter> set val = {} \<and> set train \<union> set val = {0..<length seqs} \<and>
     distinct (train @ val) \<and>
     validation_split (seqs, style_tags, progresses) (Finite f) g =
       Inr (((map (\<lambda>i. seqs ! i) train, map (\<lambda>i. style_tags ! i) train,
              map (\<lambda>i. progresses ! i) train),
             (map (\<lambda>i. seqs ! i) val, map (\<lambda>i. style_tags ! i) val,
              map (\<lambda>i. progresses ! i) val)), g')"
proof -
  from num_val_in_range[OF assms(4,5,3)] obtain k where
    k: "num_val_of (length seqs) (Finite f) = Inr k"
       "(1 \<le> k \<and> k \<le> int (length seqs)) \<or> (length seqs = 0 \<and> k = 0)"
    by blast
  from validation_split_returns[OF assms(1,2) k, of g] k(1) show ?thesis
    by blast
qed

theorem validation_split_partition_witness:
  "length [0, 1 :: int] = length [[5, 18, 13, 7], [1, 2, 3 :: int]] \<and>
   length [[5, 18, 13, 7], [1, 2, 3 :: int]] \<le> 2 ^ 53 \<and>
   pow2 (- 1074) \<le> 3602879701896397 / 72057594037927936 \<and>
   (3602879701896397 / 72057594037927936 :: rat) \<le> 1 \<and>
   round_double (5 / 100) = Finite (3602879701896397 / 72057594037927936) \<and>
   num_val_of 2 (Finite (3602879701896397 / 72057594037927936)) = Inr 1 \<and>
   map_sum id fst (split_indicies 2 (Finite (3602879701896397 / 72057594037927936)) (constant_rng 0))
     = Inr ([1], [0]) \<and>
   map_sum id fst (validation_split ([[5, 18, 13, 7], [1, 2, 3]], [0, 1],
      [Tensor [4, 3] [1, 0, 0, 0, 1, 0, 0, 0, 1, 0, 0, 1], Tensor [3, 3] [1, 0, 1, 0, 1, 1, 0, 0, 1]])
      (Finite (3602879701896397 / 72057594037927936)) (constant_rng 0)) =
    Inr (([[1, 2, 3]], [1], [Tensor [3, 3] [1, 0, 1, 0, 1, 1, 0, 0, 1]]),
         ([[5, 18, 13, 7]], [0], [Tensor [4, 3] [1, 0, 0, 0, 1, 0, 0, 0, 1, 0, 0, 1]]))"
proof -
  let ?f = "3602879701896397 / 72057594037927936 :: rat"
  have l: "length [0, 1 :: int] = length [[5, 18, 13, 7], [1, 2, 3 :: int]]"
    "length [Tensor [4, 3] [1, 0, 0, 0, 1, 0, 0, 0, 1, 0, 0, 1], Tensor [3, 3] [1, 0, 1, 0, 1, 1, 0, 0, 1]]
      = length [[5, 18, 13, 7], [1, 2, 3 :: int]]"
    "length [[5, 18, 13, 7], [1, 2, 3 :: int]] \<le> 2 ^ 53"
    by simp_all
  have "pow2 (- 1074) \<le> pow2 (- 5)" by (rule pow2_mono) simp
  also have "pow2 (- 5) \<le> ?f" by (simp add: pow2_def)
  finally have lo: "pow2 (- 1074) \<le> ?f" .
  have hi: "?f \<le> 1" by simp
  have lit: "round_double (5 / 100) = Finite ?f" by code_simp
  have nv: "num_val_of 2 (Finite ?f) = Inr 1" by code_simp
  have e1: "map_sum id fst (split_indicies 2 (Finite ?f) (constant_rng 0)) = Inr ([1], [0])"
    by code_simp
  have e2: "map_sum id fst (validation_split ([[5, 18, 13, 7], [1, 2, 3]], [0, 1],
      [Tensor [4, 3] [1, 0, 0, 0, 1, 0, 0, 0, 1, 0, 0, 1], Tensor [3, 3] [1, 0, 1, 0, 1, 1, 0, 0, 1]])
      (Finite ?f) (constant_rng 0)) =
    Inr (([[1, 2, 3]], [1], [Tensor [3, 3] [1, 0, 1, 0, 1, 1, 0, 0, 1]]),
         ([[5, 18, 13, 7]], [0], [Tensor [4, 3] [1, 0, 0, 0, 1, 0, 0, 0, 1, 0, 0, 1]]))"
    by code_simp
  from validation_split_partition[OF l(1,2,3) lo hi, of "constant_rng 0"]
  obtain k and train val :: "nat list" where
    "num_val_of (length [[5, 18, 13, 7], [1, 2, 3 :: int]]) (Finite ?f) = Inr k"
    "int (length val) = k" "set train \<inter> set val = {}"
    by blast
  with l lo hi lit nv e1 e2 show ?thesis by simp
qed

text \<open>
  Claim C5 as stated fails on the ceiling. With the default fraction \<^verbatim>\<open>0.05\<close> and 20
  triples the float product \<^verbatim>\<open>20 * 0.05\<close> is rounded to \<open>1.0\<close> and one index is taken for
  validation, where the ceiling of 20 times the value of that float is 2. With the fraction
  \<^verbatim>\<open>0.28\<close> and 25 triples the float product is just above 7 and eight indices are taken,
  where the ceiling of \<open>25 * 28/100\<close> is 7.
\<close>

theorem validation_split_float_counterexample:
  "round_double (5 / 100) = Finite (3602879701896397 / 72057594037927936) \<and>
   map_sum id (\<lambda>((train, val), g). (length (fst train), length (fst val)))
     (validation_split (example_corpus 20) (round_double (5 / 100)) (constant_rng 0)) = Inr (19, 1) \<and>
   \<lceil>of_nat 20 * (3602879701896397 / 72057594037927936 :: rat)\<rceil> = 2 \<and>
   map_sum id (\<lambda>((train, val), g). (length (fst train), length (fst val)))
     (validation_split (example_corpus 25) (round_double (28 / 100)) (constant_rng 0)) = Inr (17, 8) \<and>
   \<lceil>of_nat 25 * (28 / 100 :: rat)\<rceil> = 7"
  by code_simp




section \<open>Batches\<close>














end
